theory Spec2Isabelle
  imports Main "HOL-Library.Word" "HOL-Library.List_Lexorder" "HOL-Library.Product_Lexorder"
begin

unbundle bit_operations_syntax

section \<open>Python strings\<close>

text \<open>
  A Python \<open>str\<close> is a sequence of Unicode code points; a character is modelled by its
  code point, so that the whitespace and line-boundary classes of \<open>str.split\<close>,
  \<open>str.strip\<close> and \<open>str.splitlines\<close> are the ones of CPython, beyond ASCII too.
  Python compares strings lexicographically by code point, which is the order of
  \<open>nat list\<close>.
\<close>

type_synonym pystr = "nat list"

definition py :: "string \<Rightarrow> pystr" where
  "py s = map of_char s"

text \<open>\<open>str.isspace\<close> on one character (CPython's \<open>_PyUnicode_IsWhitespace\<close>).\<close>

definition isspace :: "nat \<Rightarrow> bool" where
  "isspace c \<longleftrightarrow>
     (9 \<le> c \<and> c \<le> 13) \<or> (28 \<le> c \<and> c \<le> 32) \<or> c = 133 \<or> c = 160 \<or> c = 5760 \<or>
     (8192 \<le> c \<and> c \<le> 8202) \<or> c = 8232 \<or> c = 8233 \<or> c = 8239 \<or> c = 8287 \<or> c = 12288"

text \<open>The line boundaries of \<open>str.splitlines\<close> (CPython's \<open>_PyUnicode_IsLinebreak\<close>).\<close>

definition is_linebreak :: "nat \<Rightarrow> bool" where
  "is_linebreak c \<longleftrightarrow>
     (10 \<le> c \<and> c \<le> 13) \<or> (28 \<le> c \<and> c \<le> 30) \<or> c = 133 \<or> c = 8232 \<or> c = 8233"

text \<open>After a line boundary: a carriage return followed by a line feed is one boundary.\<close>

fun skip_break :: "pystr \<Rightarrow> pystr" where
  "skip_break [] = []"
| "skip_break (c # cs) =
     (if c = 13 then (case cs of [] \<Rightarrow> [] | d # ds \<Rightarrow> (if d = 10 then ds else cs)) else cs)"

lemma length_skip_break: "length (skip_break s) \<le> length s"
  by (cases s) (auto split: list.splits)

lemma length_skip_break_less: "s \<noteq> [] \<Longrightarrow> length (skip_break s) < length s"
  by (cases s) (auto split: list.splits)

text \<open>\<open>str.splitlines()\<close>, without the line ends.\<close>

function splitlines :: "pystr \<Rightarrow> pystr list" where
  "splitlines s =
     (if s = [] then []
      else takeWhile (\<lambda>c. \<not> is_linebreak c) s
             # splitlines (skip_break (dropWhile (\<lambda>c. \<not> is_linebreak c) s)))"
  by pat_completeness auto
termination
proof (relation "measure length")
  show "wf (measure length)" by simp
next
  fix s :: pystr
  assume ne: "s \<noteq> []"
  let ?r = "dropWhile (\<lambda>c. \<not> is_linebreak c) s"
  show "(skip_break ?r, s) \<in> measure length"
  proof (cases "?r = []")
    case True
    with ne show ?thesis by (cases s) simp_all
  next
    case False
    then have "length (skip_break ?r) < length ?r" by (rule length_skip_break_less)
    also have "length ?r \<le> length s" by (rule length_dropWhile_le)
    finally show ?thesis by simp
  qed
qed

declare splitlines.simps [simp del]

text \<open>\<open>str.strip()\<close>, \<open>str.lstrip(chars)\<close> and \<open>str.rstrip(chars)\<close>.\<close>

definition strip :: "pystr \<Rightarrow> pystr" where
  "strip s = rev (dropWhile isspace (rev (dropWhile isspace s)))"

definition lstrip_chars :: "pystr \<Rightarrow> pystr \<Rightarrow> pystr" where
  "lstrip_chars chars s = dropWhile (\<lambda>c. c \<in> set chars) s"

definition rstrip_chars :: "pystr \<Rightarrow> pystr \<Rightarrow> pystr" where
  "rstrip_chars chars s = rev (dropWhile (\<lambda>c. c \<in> set chars) (rev s))"

text \<open>
  \<open>str.split(maxsplit=1)\<close>: leading whitespace is skipped; the first run of other
  characters is the first part; the whitespace after it is skipped, and what is left, when
  something is, is the second part (with its trailing whitespace).
\<close>

definition split_maxsplit1 :: "pystr \<Rightarrow> pystr list" where
  "split_maxsplit1 s =
     (let s1 = dropWhile isspace s in
      if s1 = [] then []
      else
        let tok = takeWhile (\<lambda>c. \<not> isspace c) s1;
            r = dropWhile isspace (dropWhile (\<lambda>c. \<not> isspace c) s1)
        in if r = [] then [tok] else [tok, r])"

text \<open>\<open>sep.join(xs)\<close>.\<close>

fun join :: "pystr \<Rightarrow> pystr list \<Rightarrow> pystr" where
  "join sep [] = []"
| "join sep [x] = x"
| "join sep (x # y # ys) = x @ sep @ join sep (y # ys)"

section \<open>Python dictionaries\<close>

text \<open>
  A \<open>dict\<close> keeps its keys in insertion order, and an assignment to a key that is
  present keeps the key's place: an association list with distinct keys.
\<close>

type_synonym pydict = "(pystr \<times> pystr) list"

fun dict_set :: "pystr \<Rightarrow> pystr \<Rightarrow> pydict \<Rightarrow> pydict" where
  "dict_set k v [] = [(k, v)]"
| "dict_set k v ((k', v') # d) = (if k' = k then (k, v) # d else (k', v') # dict_set k v d)"

definition dict_get :: "pydict \<Rightarrow> pystr \<Rightarrow> pystr option" where
  "dict_get d k = map_of d k"

definition dict_keys :: "pydict \<Rightarrow> pystr list" where
  "dict_keys d = map fst d"

section \<open>The comparison of \<open>cmd_check\<close>\<close>

text \<open>
  The log lines of the comparison, by their prefix: \<open>MISSING (not scanned):\<close>,
  \<open>MISSING:\<close>, \<open>ERROR (could not hash):\<close>, \<open>MODIFIED:\<close> and
  \<open>NEW (in list now, not in baseline):\<close>, each followed by the path.
\<close>

datatype finding =
    MissingNotScanned pystr
  | Missing pystr
  | Error pystr
  | Modified pystr
  | New pystr

definition MISSING :: pystr where
  "MISSING = py ''MISSING''"

definition ERROR :: pystr where
  "ERROR = py ''ERROR''"

text \<open>
  The state of the two loops: the lines logged so far and the counter \<open>changes\<close>.
\<close>

type_synonym check_state = "finding list \<times> nat"

text \<open>The body of the first loop, for one item \<open>(path, bhash)\<close> of the baseline.\<close>

definition check_baseline_item :: "pydict \<Rightarrow> pystr \<times> pystr \<Rightarrow> check_state \<Rightarrow> check_state" where
  "check_baseline_item scan item st =
     (case item of (path, bhash) \<Rightarrow>
      case st of (logged, changes) \<Rightarrow>
        (case dict_get scan path of
           None \<Rightarrow> (logged @ [MissingNotScanned path], changes + 1)
         | Some shash \<Rightarrow>
             if shash = MISSING then (logged @ [Missing path], changes + 1)
             else if shash = ERROR then (logged @ [Error path], changes + 1)
             else if bhash \<noteq> shash then (logged @ [Modified path], changes + 1)
             else (logged, changes)))"

text \<open>The body of the second loop.\<close>

definition check_new_item :: "pystr \<Rightarrow> check_state \<Rightarrow> check_state" where
  "check_new_item path st = (case st of (logged, changes) \<Rightarrow> (logged @ [New path], changes + 1))"

text \<open>
  \<open>sorted(base.items())\<close> sorts the pairs, and \<open>sorted(scan.keys() - base.keys())\<close> the
  set difference of the keys.
\<close>

definition compare_stores :: "pydict \<Rightarrow> pydict \<Rightarrow> check_state" where
  "compare_stores base scan =
     fold check_new_item
       (sorted_list_of_set (set (dict_keys scan) - set (dict_keys base)))
       (fold (check_baseline_item scan) (sort base) ([], 0))"

datatype verdict = OK | ALERT nat

definition check_verdict :: "check_state \<Rightarrow> verdict" where
  "check_verdict st = (if snd st = 0 then OK else ALERT (snd st))"


subsection \<open>The comparison as the specification words it\<close>

text \<open>
  A token of a store is a digest of 64 lowercase hexadecimal characters or one of the words
  \<open>MISSING\<close> and \<open>ERROR\<close>.
\<close>

definition is_hexdigit :: "nat \<Rightarrow> bool" where
  "is_hexdigit c \<longleftrightarrow> (48 \<le> c \<and> c \<le> 57) \<or> (97 \<le> c \<and> c \<le> 102)"

definition is_digest :: "pystr \<Rightarrow> bool" where
  "is_digest t \<longleftrightarrow> length t = 64 \<and> list_all is_hexdigit t"

definition is_outcome :: "pystr \<Rightarrow> bool" where
  "is_outcome t \<longleftrightarrow> is_digest t \<or> t = MISSING \<or> t = ERROR"

text \<open>
  The classification of one baseline path, case by case in the order of the
  specification: absent from the scan; the scan's token is \<open>MISSING\<close>; it is
  \<open>ERROR\<close>; it is a digest and differs from the baseline's token; otherwise nothing.
\<close>

definition diff_path :: "(pystr \<rightharpoonup> pystr) \<Rightarrow> (pystr \<rightharpoonup> pystr) \<Rightarrow> pystr \<Rightarrow> finding list" where
  "diff_path baseline scan path =
     (case scan path of
        None \<Rightarrow> [MissingNotScanned path]
      | Some t \<Rightarrow>
          if t = MISSING then [Missing path]
          else if t = ERROR then [Error path]
          else if is_digest t \<and> Some t \<noteq> baseline path then [Modified path]
          else [])"

text \<open>
  The two phases: the paths of the baseline in ascending order, then the paths of the scan
  that the baseline does not have, in ascending order.
\<close>

definition diff_spec :: "(pystr \<rightharpoonup> pystr) \<Rightarrow> (pystr \<rightharpoonup> pystr) \<Rightarrow> finding list" where
  "diff_spec baseline scan =
     concat (map (diff_path baseline scan) (sorted_list_of_set (dom baseline)))
       @ map New (sorted_list_of_set (dom scan - dom baseline))"

subsection \<open>The loops in closed form\<close>

lemma fold_check_baseline_item:
  "fold (check_baseline_item scan) items (l, n) =
     (l @ concat (map (\<lambda>it. fst (check_baseline_item scan it ([], 0))) items),
      n + length (concat (map (\<lambda>it. fst (check_baseline_item scan it ([], 0))) items)))"
  by (induction items arbitrary: l n)
     (auto simp: check_baseline_item_def split: option.splits)

lemma fold_check_new_item:
  "fold check_new_item ps (l, n) = (l @ map New ps, n + length ps)"
  by (induction ps arbitrary: l n) (auto simp: check_new_item_def)

lemma fst_mono_items: "(x :: pystr \<times> pystr) \<le> y \<Longrightarrow> fst x \<le> fst y"
  by (auto simp: less_eq_prod_def)

lemma keys_of_sorted_items:
  assumes "distinct (map fst (base :: pydict))"
  shows "map fst (sort base) = sorted_list_of_set (fst ` set base)"
proof -
  have s: "sorted (map fst (sort base))"
    using sorted_sort [of base]
    by (simp add: sorted_map sorted_wrt_mono_rel [of _ "(\<le>)"] fst_mono_items)
  have d: "distinct (map fst (sort base))"
    using assms by (simp add: distinct_map)
  have "set (map fst (sort base)) = fst ` set base" by simp
  with s d show ?thesis
    by (metis sorted_list_of_set.idem_if_sorted_distinct)
qed

lemma item_findings:
  assumes "list_all is_outcome (map snd scan)" and "map_of base p = Some b"
  shows "fst (check_baseline_item scan (p, b) ([], 0)) = diff_path (map_of base) (map_of scan) p"
proof (cases "map_of scan p")
  case None
  then show ?thesis by (simp add: check_baseline_item_def diff_path_def dict_get_def)
next
  case (Some t)
  then have "(p, t) \<in> set scan" by (rule map_of_SomeD)
  then have "is_outcome t" using assms(1) by (force simp: list_all_iff)
  with Some assms(2) show ?thesis
    by (auto simp: check_baseline_item_def diff_path_def dict_get_def is_outcome_def)
qed

text \<open>
  C1. For a baseline dictionary and a scan whose tokens are digests or sentinels, the lines
  that \<open>cmd_check\<close> logs are the findings of the two phases of the specification: first
  every path of the baseline in ascending order, classified \<open>MissingNotScanned\<close> when the
  scan does not have it, \<open>Missing\<close> or \<open>Error\<close> when the scan's token is that sentinel,
  \<open>Modified\<close> when the scan's token is a digest that differs from the baseline's, and
  nothing otherwise; then every path of the scan that the baseline does not have, in
  ascending order, as \<open>New\<close>. The counter \<open>changes\<close> is the number of findings.
\<close>

theorem compare_stores_two_phases:
  assumes "distinct (dict_keys base)" and "list_all is_outcome (map snd scan)"
  shows "fst (compare_stores base scan) = diff_spec (map_of base) (map_of scan) \<and>
         snd (compare_stores base scan) = length (diff_spec (map_of base) (map_of scan))"
proof -
  let ?f = "\<lambda>it. fst (check_baseline_item scan it ([], 0))"
  have d: "distinct (map fst base)" using assms(1) by (simp add: dict_keys_def)
  have "map ?f (sort base) = map (\<lambda>x. diff_path (map_of base) (map_of scan) (fst x)) (sort base)"
  proof (rule map_cong [OF refl])
    fix x assume "x \<in> set (sort base)"
    then have "(fst x, snd x) \<in> set base" by simp
    then have "map_of base (fst x) = Some (snd x)" using d by simp
    from item_findings [OF assms(2) this]
    show "?f x = diff_path (map_of base) (map_of scan) (fst x)" by simp
  qed
  also have "\<dots> = map (diff_path (map_of base) (map_of scan)) (map fst (sort base))"
    by simp
  also have "map fst (sort base) = sorted_list_of_set (dom (map_of base))"
    using keys_of_sorted_items [OF d] by (simp add: dom_map_of_conv_image_fst)
  finally have p1: "concat (map ?f (sort base))
      = concat (map (diff_path (map_of base) (map_of scan)) (sorted_list_of_set (dom (map_of base))))"
    by simp
  have p2: "set (dict_keys scan) - set (dict_keys base) = dom (map_of scan) - dom (map_of base)"
    by (simp add: dict_keys_def dom_map_of_conv_image_fst)
  show ?thesis
    unfolding compare_stores_def fold_check_baseline_item fold_check_new_item p1 p2 diff_spec_def
    by simp
qed

text \<open>
  The two phases on a baseline of three paths and a scan of three: one modified, one
  missing, one not scanned and one new path.
\<close>

theorem compare_stores_two_phases_witness:
  "distinct (dict_keys
      [(py ''b.txt'', py ''3e23e8160039594a33894f6564e1b1348bbd7a0088d42c4acb73eeaed59c009d''),
       (py ''a.txt'', py ''2cf24dba5fb0a30e26e83b2ac5b9e29e1b161e5c1fa7425e73043362938b9824''),
       (py ''gone'', MISSING)])
   \<and> list_all is_outcome (map snd
      [(py ''a.txt'', py ''ca978112ca1bbdcafac231b39a23dc4da786eff8147c4e72b9807785afee48bb''),
       (py ''b.txt'', MISSING),
       (py ''new'', ERROR)])
   \<and> diff_spec
      (map_of [(py ''b.txt'', py ''3e23e8160039594a33894f6564e1b1348bbd7a0088d42c4acb73eeaed59c009d''),
       (py ''a.txt'', py ''2cf24dba5fb0a30e26e83b2ac5b9e29e1b161e5c1fa7425e73043362938b9824''),
       (py ''gone'', MISSING)])
      (map_of [(py ''a.txt'', py ''ca978112ca1bbdcafac231b39a23dc4da786eff8147c4e72b9807785afee48bb''),
       (py ''b.txt'', MISSING),
       (py ''new'', ERROR)])
     = [Modified (py ''a.txt''), Missing (py ''b.txt''), MissingNotScanned (py ''gone''), New (py ''new'')]"
proof -
  let ?B = "[(py ''b.txt'', py ''3e23e8160039594a33894f6564e1b1348bbd7a0088d42c4acb73eeaed59c009d''),
       (py ''a.txt'', py ''2cf24dba5fb0a30e26e83b2ac5b9e29e1b161e5c1fa7425e73043362938b9824''),
       (py ''gone'', MISSING)]"
  let ?S = "[(py ''a.txt'', py ''ca978112ca1bbdcafac231b39a23dc4da786eff8147c4e72b9807785afee48bb''),
       (py ''b.txt'', MISSING),
       (py ''new'', ERROR)]"
  have h1: "distinct (dict_keys ?B)" by code_simp
  have h2: "list_all is_outcome (map snd ?S)" by code_simp
  have c: "fst (compare_stores ?B ?S)
      = [Modified (py ''a.txt''), Missing (py ''b.txt''), MissingNotScanned (py ''gone''), New (py ''new'')]"
    by code_simp
  from compare_stores_two_phases [OF h1 h2] c h1 h2 show ?thesis by simp
qed

subsection \<open>Sentinels and the verdict\<close>

lemma ERROR_neq_MISSING: "ERROR \<noteq> MISSING"
  by (simp add: ERROR_def MISSING_def py_def)

lemma baseline_item_in_log:
  assumes "(p, b) \<in> set base"
  shows "set (fst (check_baseline_item scan (p, b) ([], 0))) \<subseteq> set (fst (compare_stores base scan))"
proof -
  from assms have "(p, b) \<in> set (sort base)" by simp
  then show ?thesis
    unfolding compare_stores_def fold_check_baseline_item fold_check_new_item
    by auto
qed

lemma no_changes_baseline_item:
  assumes "snd (compare_stores base scan) = 0" and "(p, b) \<in> set base"
  shows "fst (check_baseline_item scan (p, b) ([], 0)) = []"
proof -
  from assms(1) have "\<forall>it \<in> set (sort base). fst (check_baseline_item scan it ([], 0)) = []"
    unfolding compare_stores_def fold_check_baseline_item fold_check_new_item by simp
  with assms(2) show ?thesis by simp
qed

lemma no_changes_no_new:
  assumes "snd (compare_stores base scan) = 0"
  shows "set (dict_keys scan) \<subseteq> set (dict_keys base)"
proof -
  from assms have "sorted_list_of_set (set (dict_keys scan) - set (dict_keys base)) = []"
    unfolding compare_stores_def fold_check_baseline_item fold_check_new_item by simp
  then have "set (dict_keys scan) - set (dict_keys base) = {}"
    by (metis List.finite_set finite_Diff sorted_list_of_set.set_sorted_key_list_of_set set_empty)
  then show ?thesis by blast
qed

text \<open>
  C10. A path whose token is \<open>MISSING\<close> in the baseline and in the scan is logged as
  \<open>Missing\<close>, and one whose token is \<open>ERROR\<close> in both as \<open>Error\<close>: equal sentinels
  are not "no change". So, for a scan whose tokens are digests or sentinels, the verdict is
  \<open>OK\<close> only when every path of the baseline and of the scan has, in both, the same
  digest.
\<close>

theorem sentinel_equality_is_a_finding:
  assumes "list_all is_outcome (map snd scan)"
  shows "(dict_get base p = Some MISSING \<and> dict_get scan p = Some MISSING
            \<longrightarrow> Missing p \<in> set (fst (compare_stores base scan)))
       \<and> (dict_get base p = Some ERROR \<and> dict_get scan p = Some ERROR
            \<longrightarrow> Error p \<in> set (fst (compare_stores base scan)))
       \<and> (check_verdict (compare_stores base scan) = OK
            \<longrightarrow> (\<forall>q \<in> set (dict_keys base) \<union> set (dict_keys scan).
                   \<exists>d. is_digest d \<and> dict_get base q = Some d \<and> dict_get scan q = Some d))"
proof (intro conjI impI ballI)
  assume a: "dict_get base p = Some MISSING \<and> dict_get scan p = Some MISSING"
  then have "(p, MISSING) \<in> set base" by (simp add: dict_get_def map_of_SomeD)
  from baseline_item_in_log [OF this, of scan] a
  show "Missing p \<in> set (fst (compare_stores base scan))"
    by (simp add: check_baseline_item_def)
next
  assume a: "dict_get base p = Some ERROR \<and> dict_get scan p = Some ERROR"
  then have "(p, ERROR) \<in> set base" by (simp add: dict_get_def map_of_SomeD)
  from baseline_item_in_log [OF this, of scan] a
  show "Error p \<in> set (fst (compare_stores base scan))"
    by (simp add: check_baseline_item_def ERROR_neq_MISSING)
next
  fix q
  assume ok: "check_verdict (compare_stores base scan) = OK"
    and q: "q \<in> set (dict_keys base) \<union> set (dict_keys scan)"
  from ok have z: "snd (compare_stores base scan) = 0"
    by (simp add: check_verdict_def split: if_splits)
  from q no_changes_no_new [OF z] have "q \<in> set (dict_keys base)" by blast
  then have "map_of base q \<noteq> None"
    by (simp add: dict_keys_def map_of_eq_None_iff)
  then obtain b where b: "dict_get base q = Some b"
    by (auto simp: dict_get_def)
  then have "(q, b) \<in> set base" by (simp add: dict_get_def map_of_SomeD)
  from no_changes_baseline_item [OF z this]
  have s: "dict_get scan q = Some b \<and> b \<noteq> MISSING \<and> b \<noteq> ERROR"
    by (auto simp: check_baseline_item_def split: option.splits if_splits)
  then have "(q, b) \<in> set scan" by (simp add: dict_get_def map_of_SomeD)
  with assms have "is_outcome b" by (force simp: list_all_iff)
  with s have "is_digest b" by (simp add: is_outcome_def)
  with b s show "\<exists>d. is_digest d \<and> dict_get base q = Some d \<and> dict_get scan q = Some d"
    by blast
qed


text \<open>
  A baseline and a scan that both hold \<open>MISSING\<close> for one path and \<open>ERROR\<close> for
  another, and a pair of stores with one equal digest, for the verdict \<open>OK\<close>.
\<close>

theorem sentinel_equality_is_a_finding_witness:
  "list_all is_outcome (map snd [(py ''a'', MISSING), (py ''b'', ERROR)])
   \<and> dict_get [(py ''b'', ERROR), (py ''a'', MISSING)] (py ''a'') = Some MISSING
   \<and> dict_get [(py ''a'', MISSING), (py ''b'', ERROR)] (py ''a'') = Some MISSING
   \<and> Missing (py ''a'')
        \<in> set (fst (compare_stores [(py ''b'', ERROR), (py ''a'', MISSING)]
                                     [(py ''a'', MISSING), (py ''b'', ERROR)]))
   \<and> dict_get [(py ''b'', ERROR), (py ''a'', MISSING)] (py ''b'') = Some ERROR
   \<and> dict_get [(py ''a'', MISSING), (py ''b'', ERROR)] (py ''b'') = Some ERROR
   \<and> Error (py ''b'')
        \<in> set (fst (compare_stores [(py ''b'', ERROR), (py ''a'', MISSING)]
                                     [(py ''a'', MISSING), (py ''b'', ERROR)]))
   \<and> list_all is_outcome (map snd [(py ''a'', replicate 64 (of_char CHR ''0''))])
   \<and> check_verdict (compare_stores [(py ''a'', replicate 64 (of_char CHR ''0''))]
                                     [(py ''a'', replicate 64 (of_char CHR ''0''))]) = OK
   \<and> (\<exists>d. is_digest d
          \<and> dict_get [(py ''a'', replicate 64 (of_char CHR ''0''))] (py ''a'') = Some d)"
proof -
  let ?B = "[(py ''b'', ERROR), (py ''a'', MISSING)]"
  let ?S = "[(py ''a'', MISSING), (py ''b'', ERROR)]"
  let ?D = "[(py ''a'', replicate 64 (of_char CHR ''0''))]"
  have h1: "list_all is_outcome (map snd ?S)" by (simp add: is_outcome_def)
  have h2: "list_all is_outcome (map snd ?D)" by code_simp
  have a: "dict_get ?B (py ''a'') = Some MISSING \<and> dict_get ?S (py ''a'') = Some MISSING"
    by code_simp
  have b: "dict_get ?B (py ''b'') = Some ERROR \<and> dict_get ?S (py ''b'') = Some ERROR"
    by code_simp
  have c: "check_verdict (compare_stores ?D ?D) = OK" by code_simp
  have k: "py ''a'' \<in> set (dict_keys ?D) \<union> set (dict_keys ?D)" by (simp add: dict_keys_def)
  from sentinel_equality_is_a_finding [OF h1, of ?B "py ''a''"] a
  have r1: "Missing (py ''a'') \<in> set (fst (compare_stores ?B ?S))" by blast
  from sentinel_equality_is_a_finding [OF h1, of ?B "py ''b''"] b
  have r2: "Error (py ''b'') \<in> set (fst (compare_stores ?B ?S))" by blast
  from sentinel_equality_is_a_finding [OF h2, of ?D] c k
  have r3: "\<exists>d. is_digest d \<and> dict_get ?D (py ''a'') = Some d" by blast
  from h1 h2 a b c r1 r2 r3 show ?thesis by blast
qed

section \<open>SHA-256, as \<open>hashlib.sha256\<close> computes it\<close>

text \<open>
  The digest of FIPS 180-4 on bytes: 32-bit words that wrap around, a message padded with
  the byte \<open>0x80\<close>, zeros and its length in bits as 64 bits, and cut into blocks of 64
  bytes.
\<close>

type_synonym u8 = "8 word"
type_synonym u32 = "32 word"

definition K256 :: "u32 list" where
  "K256 = [
    0x428A2F98, 0x71374491, 0xB5C0FBCF, 0xE9B5DBA5, 0x3956C25B, 0x59F111F1, 0x923F82A4, 0xAB1C5ED5,
    0xD807AA98, 0x12835B01, 0x243185BE, 0x550C7DC3, 0x72BE5D74, 0x80DEB1FE, 0x9BDC06A7, 0xC19BF174,
    0xE49B69C1, 0xEFBE4786, 0x0FC19DC6, 0x240CA1CC, 0x2DE92C6F, 0x4A7484AA, 0x5CB0A9DC, 0x76F988DA,
    0x983E5152, 0xA831C66D, 0xB00327C8, 0xBF597FC7, 0xC6E00BF3, 0xD5A79147, 0x06CA6351, 0x14292967,
    0x27B70A85, 0x2E1B2138, 0x4D2C6DFC, 0x53380D13, 0x650A7354, 0x766A0ABB, 0x81C2C92E, 0x92722C85,
    0xA2BFE8A1, 0xA81A664B, 0xC24B8B70, 0xC76C51A3, 0xD192E819, 0xD6990624, 0xF40E3585, 0x106AA070,
    0x19A4C116, 0x1E376C08, 0x2748774C, 0x34B0BCB5, 0x391C0CB3, 0x4ED8AA4A, 0x5B9CCA4F, 0x682E6FF3,
    0x748F82EE, 0x78A5636F, 0x84C87814, 0x8CC70208, 0x90BEFFFA, 0xA4506CEB, 0xBEF9A3F7, 0xC67178F2]"

definition H256_init :: "u32 list" where
  "H256_init = [0x6A09E667, 0xBB67AE85, 0x3C6EF372, 0xA54FF53A,
                0x510E527F, 0x9B05688C, 0x1F83D9AB, 0x5BE0CD19]"

text \<open>The six logical functions.\<close>

definition Ch :: "u32 \<Rightarrow> u32 \<Rightarrow> u32 \<Rightarrow> u32" where
  "Ch x y z = (x AND y) XOR (NOT x AND z)"

definition Maj :: "u32 \<Rightarrow> u32 \<Rightarrow> u32 \<Rightarrow> u32" where
  "Maj x y z = (x AND y) XOR (x AND z) XOR (y AND z)"

definition Sigma0 :: "u32 \<Rightarrow> u32" where
  "Sigma0 x = word_rotr 2 x XOR word_rotr 13 x XOR word_rotr 22 x"

definition Sigma1 :: "u32 \<Rightarrow> u32" where
  "Sigma1 x = word_rotr 6 x XOR word_rotr 11 x XOR word_rotr 25 x"

definition sigma0 :: "u32 \<Rightarrow> u32" where
  "sigma0 x = word_rotr 7 x XOR word_rotr 18 x XOR drop_bit 3 x"

definition sigma1 :: "u32 \<Rightarrow> u32" where
  "sigma1 x = word_rotr 17 x XOR word_rotr 19 x XOR drop_bit 10 x"

text \<open>A block as sixteen big-endian words, and the message schedule of 64 words.\<close>

definition be32 :: "u8 list \<Rightarrow> u32" where
  "be32 bs = foldl (\<lambda>w b. push_bit 8 w OR ucast b) 0 bs"

fun words_of_block :: "u8 list \<Rightarrow> u32 list" where
  "words_of_block (a # b # c # d # bs) = be32 [a, b, c, d] # words_of_block bs"
| "words_of_block _ = []"

fun extend_schedule :: "nat \<Rightarrow> u32 list \<Rightarrow> u32 list" where
  "extend_schedule 0 w = w"
| "extend_schedule (Suc n) w =
     (let t = length w in
      extend_schedule n
        (w @ [sigma1 (w ! (t - 2)) + w ! (t - 7) + sigma0 (w ! (t - 15)) + w ! (t - 16)]))"

text \<open>One round on the eight working variables, and the compression of one block.\<close>

type_synonym regs = "u32 \<times> u32 \<times> u32 \<times> u32 \<times> u32 \<times> u32 \<times> u32 \<times> u32"

definition round256 :: "regs \<Rightarrow> u32 \<times> u32 \<Rightarrow> regs" where
  "round256 r kw =
     (case r of (a, b, c, d, e, f, g, h) \<Rightarrow>
      case kw of (k, w) \<Rightarrow>
        let t1 = h + Sigma1 e + Ch e f g + k + w;
            t2 = Sigma0 a + Maj a b c
        in (t1 + t2, a, b, c, d + t1, e, f, g))"

definition compress :: "u32 list \<Rightarrow> u8 list \<Rightarrow> u32 list" where
  "compress hs block =
     (let w = extend_schedule 48 (words_of_block block);
          r0 = (hs ! 0, hs ! 1, hs ! 2, hs ! 3, hs ! 4, hs ! 5, hs ! 6, hs ! 7)
      in case foldl round256 r0 (zip K256 w) of (a, b, c, d, e, f, g, h) \<Rightarrow>
           map2 (+) hs [a, b, c, d, e, f, g, h])"

text \<open>The padding of a message of \<open>n\<close> bytes.\<close>

definition be64_bytes :: "nat \<Rightarrow> u8 list" where
  "be64_bytes n =
     map (\<lambda>s. ucast (drop_bit s (of_nat n :: 64 word))) [56, 48, 40, 32, 24, 16, 8, 0]"

definition padding :: "nat \<Rightarrow> u8 list" where
  "padding n = 0x80 # replicate ((119 - n mod 64) mod 64) 0 @ be64_bytes (8 * n)"

text \<open>The blocks of 64 bytes (a shorter rest is left out: a padded message has none).\<close>

fun blocks :: "u8 list \<Rightarrow> u8 list list" where
  "blocks bs = (if length bs < 64 then [] else take 64 bs # blocks (drop 64 bs))"

declare blocks.simps [simp del]

text \<open>The digest of a whole message, in one pass.\<close>

definition sha256 :: "u8 list \<Rightarrow> u32 list" where
  "sha256 msg = foldl compress H256_init (blocks (msg @ padding (length msg)))"

text \<open>\<open>hexdigest()\<close>: the eight words in lowercase hexadecimal.\<close>

definition hexchar :: "nat \<Rightarrow> nat" where
  "hexchar d = (if d < 10 then 48 + d else 87 + d)"

definition hex32 :: "u32 \<Rightarrow> pystr" where
  "hex32 w = map (\<lambda>s. hexchar (unat (drop_bit s w AND 15))) [28, 24, 20, 16, 12, 8, 4, 0]"

definition hexdigest :: "u32 list \<Rightarrow> pystr" where
  "hexdigest hs = concat (map hex32 hs)"

subsection \<open>The hash object\<close>

text \<open>
  \<open>hashlib.sha256()\<close> is an accumulator: \<open>update\<close> compresses every full block of the
  bytes it has and keeps the rest, \<open>hexdigest\<close> pads what is left with the count of all
  the bytes.
\<close>

record sha256_obj =
  hstate :: "u32 list"
  pending :: "u8 list"
  nbytes :: nat

definition sha256_new :: sha256_obj where
  "sha256_new = \<lparr>hstate = H256_init, pending = [], nbytes = 0\<rparr>"

fun absorb :: "u32 list \<Rightarrow> u8 list \<Rightarrow> u32 list \<times> u8 list" where
  "absorb h bs = (if length bs < 64 then (h, bs) else absorb (compress h (take 64 bs)) (drop 64 bs))"

declare absorb.simps [simp del]

definition sha256_update :: "sha256_obj \<Rightarrow> u8 list \<Rightarrow> sha256_obj" where
  "sha256_update obj data =
     (case absorb (hstate obj) (pending obj @ data) of (h, rest) \<Rightarrow>
        \<lparr>hstate = h, pending = rest, nbytes = nbytes obj + length data\<rparr>)"

definition sha256_hexdigest :: "sha256_obj \<Rightarrow> pystr" where
  "sha256_hexdigest obj =
     hexdigest (foldl compress (hstate obj) (blocks (pending obj @ padding (nbytes obj))))"

section \<open>Hashing a file\<close>

text \<open>
  What the file system holds at a path: nothing, something that is not a regular file, a
  regular file with its bytes, or a path that cannot be examined (a name that is too long,
  a directory that cannot be searched). Opening a regular file or one of the calls of
  \<open>read\<close> (counted from 0) can raise \<open>OSError\<close>; on a path that cannot be examined
  \<open>Path.is_file\<close> itself raises \<open>OSError\<close>.
\<close>

datatype io_fault = NoFault | OpenFails | ReadFails nat

datatype node = Absent | NotRegular | Regular "u8 list" io_fault | StatFails

datatype os_error = OSError

text \<open>
  The loop \<open>for chunk in iter(lambda: f.read(n), b""): h.update(chunk)\<close>: \<open>k\<close> counts
  the calls of \<open>read\<close>, \<open>rest\<close> is what the file has left.
\<close>

function feed_chunks :: "nat \<Rightarrow> io_fault \<Rightarrow> nat \<Rightarrow> u8 list \<Rightarrow> sha256_obj \<Rightarrow> os_error + sha256_obj" where
  "feed_chunks n fault k rest h =
     (if fault = ReadFails k then Inl OSError
      else
        let chunk = take n rest in
        if chunk = [] then Inr h
        else feed_chunks n fault (k + 1) (drop n rest) (sha256_update h chunk))"
  by pat_completeness auto
termination
  by (relation "measure (\<lambda>(n, fault, k, rest, h). length rest)") auto

declare feed_chunks.simps [simp del]

definition sha256_of_file :: "u8 list \<Rightarrow> io_fault \<Rightarrow> os_error + pystr" where
  "sha256_of_file content fault =
     (if fault = OpenFails then Inl OSError
      else
        case feed_chunks (1024 * 1024) fault 0 content sha256_new of
          Inl e \<Rightarrow> Inl e
        | Inr h \<Rightarrow> Inr (sha256_hexdigest h))"

subsection \<open>Streaming and one pass\<close>

text \<open>What \<open>absorb\<close> leaves pending: the bytes after the last full block.\<close>

fun tail_bytes :: "u8 list \<Rightarrow> u8 list" where
  "tail_bytes bs = (if length bs < 64 then bs else tail_bytes (drop 64 bs))"

declare tail_bytes.simps [simp del]

lemma absorb_eq: "absorb h bs = (foldl compress h (blocks bs), tail_bytes bs)"
proof (induction h bs rule: absorb.induct)
  case (1 h bs)
  show ?case
  proof (cases "length bs < 64")
    case True
    then show ?thesis
      by (simp add: absorb.simps [of h bs] blocks.simps [of bs] tail_bytes.simps [of bs])
  next
    case False
    with "1" show ?thesis
      by (simp add: absorb.simps [of h bs] blocks.simps [of bs] tail_bytes.simps [of bs])
  qed
qed

lemma length_tail_bytes: "length (tail_bytes bs) < 64"
proof (induction bs rule: tail_bytes.induct)
  case (1 bs)
  then show ?case by (cases "length bs < 64") (simp_all add: tail_bytes.simps [of bs])
qed

lemma blocks_short: "length bs < 64 \<Longrightarrow> blocks bs = []"
  by (simp add: blocks.simps [of bs])

lemma tail_bytes_short: "length bs < 64 \<Longrightarrow> tail_bytes bs = bs"
  by (simp add: tail_bytes.simps [of bs])

lemma drop_full_block:
  "\<not> length (a :: 'a list) < 64 \<Longrightarrow> length a mod 64 = 0 \<Longrightarrow> (length a - 64) mod 64 = 0"
  by presburger

lemma blocks_append_full:
  "length a mod 64 = 0 \<Longrightarrow> blocks (a @ b) = blocks a @ blocks b"
proof (induction a rule: blocks.induct)
  case (1 a)
  show ?case
  proof (cases "length a < 64")
    case True
    with "1.prems" have "a = []" by simp
    then show ?thesis by (simp add: blocks_short)
  next
    case False
    then have m: "length (drop 64 a) mod 64 = 0"
      using "1.prems" by (simp add: drop_full_block)
    from False have "blocks (a @ b) = take 64 a # blocks (drop 64 a @ b)"
      by (simp add: blocks.simps [of "a @ b"])
    also have "\<dots> = take 64 a # blocks (drop 64 a) @ blocks b"
      using "1.IH" [OF False m] by simp
    also have "\<dots> = blocks a @ blocks b"
      using False by (simp add: blocks.simps [of a])
    finally show ?thesis .
  qed
qed

lemma tail_bytes_append_full:
  "length a mod 64 = 0 \<Longrightarrow> tail_bytes (a @ b) = tail_bytes b"
proof (induction a rule: blocks.induct)
  case (1 a)
  show ?case
  proof (cases "length a < 64")
    case True
    with "1.prems" have "a = []" by simp
    then show ?thesis by simp
  next
    case False
    then have m: "length (drop 64 a) mod 64 = 0"
      using "1.prems" by (simp add: drop_full_block)
    from False have "tail_bytes (a @ b) = tail_bytes (drop 64 a @ b)"
      by (simp add: tail_bytes.simps [of "a @ b"])
    with "1.IH" [OF False m] show ?thesis by simp
  qed
qed

lemma split_full_tail:
  "\<exists>a. bs = a @ tail_bytes bs \<and> length a mod 64 = 0 \<and> blocks a = blocks bs"
proof (induction bs rule: blocks.induct)
  case (1 bs)
  show ?case
  proof (cases "length bs < 64")
    case True
    then have "bs = [] @ tail_bytes bs \<and> length ([] :: u8 list) mod 64 = 0 \<and> blocks [] = blocks bs"
      by (simp add: tail_bytes_short blocks_short)
    then show ?thesis by (rule exI [of _ "[]"])
  next
    case False
    have t: "tail_bytes bs = tail_bytes (drop 64 bs)"
      using False by (simp add: tail_bytes.simps [of bs])
    from "1.IH" [OF False] obtain a where
      ih: "drop 64 bs = a @ tail_bytes (drop 64 bs) \<and> length a mod 64 = 0 \<and>
           blocks a = blocks (drop 64 bs)"
      by (rule exE)
    note a = conjunct1 [OF ih] conjunct1 [OF conjunct2 [OF ih]] conjunct2 [OF conjunct2 [OF ih]]
    have a1: "drop 64 bs = a @ tail_bytes bs" by (subst t) (rule a(1))
    let ?a = "take 64 bs @ a"
    have l: "length (take 64 bs) = 64" using False by simp
    have "bs = take 64 bs @ drop 64 bs" by (simp only: append_take_drop_id)
    also have "\<dots> = ?a @ tail_bytes bs" by (simp only: a1 append_assoc)
    finally have 1: "bs = ?a @ tail_bytes bs" .
    have 2: "length ?a mod 64 = 0" using a(2) l by simp
    have "blocks ?a = blocks (take 64 bs) @ blocks a"
      by (rule blocks_append_full) (simp only: l mod_self)
    also have "blocks (take 64 bs) = [take 64 bs]"
      using l by (simp add: blocks.simps [of "take 64 bs"] blocks_short)
    also have "blocks a = blocks (drop 64 bs)" by (rule a(3))
    also have "[take 64 bs] @ blocks (drop 64 bs) = blocks bs"
      using False by (simp add: blocks.simps [of bs])
    finally have 3: "blocks ?a = blocks bs" .
    from 1 2 3 have "bs = ?a @ tail_bytes bs \<and> length ?a mod 64 = 0 \<and> blocks ?a = blocks bs"
      by (intro conjI)
    then show ?thesis by (rule exI [of _ ?a])
  qed
qed

lemma blocks_append: "blocks (bs @ cs) = blocks bs @ blocks (tail_bytes bs @ cs)"
proof -
  from split_full_tail [of bs] obtain a where
    ih: "bs = a @ tail_bytes bs \<and> length a mod 64 = 0 \<and> blocks a = blocks bs"
    by (rule exE)
  note a = conjunct1 [OF ih] conjunct1 [OF conjunct2 [OF ih]] conjunct2 [OF conjunct2 [OF ih]]
  have "bs @ cs = a @ (tail_bytes bs @ cs)" by (subst a(1)) simp
  then have "blocks (bs @ cs) = blocks (a @ (tail_bytes bs @ cs))" by (rule arg_cong)
  also have "\<dots> = blocks a @ blocks (tail_bytes bs @ cs)" by (rule blocks_append_full [OF a(2)])
  also have "blocks a = blocks bs" by (rule a(3))
  finally show ?thesis .
qed

lemma tail_bytes_append: "tail_bytes (bs @ cs) = tail_bytes (tail_bytes bs @ cs)"
proof -
  from split_full_tail [of bs] obtain a where
    ih: "bs = a @ tail_bytes bs \<and> length a mod 64 = 0 \<and> blocks a = blocks bs"
    by (rule exE)
  note a = conjunct1 [OF ih] conjunct1 [OF conjunct2 [OF ih]]
  have "bs @ cs = a @ (tail_bytes bs @ cs)" by (subst a(1)) simp
  then have "tail_bytes (bs @ cs) = tail_bytes (a @ (tail_bytes bs @ cs))" by (rule arg_cong)
  also have "\<dots> = tail_bytes (tail_bytes bs @ cs)" by (rule tail_bytes_append_full [OF a(2)])
  finally show ?thesis .
qed

text \<open>The hash object after all of \<open>bs\<close> has gone through \<open>update\<close>.\<close>

definition fed :: "u8 list \<Rightarrow> sha256_obj" where
  "fed bs = \<lparr>hstate = foldl compress H256_init (blocks bs), pending = tail_bytes bs,
             nbytes = length bs\<rparr>"

lemma fed_Nil: "sha256_new = fed []"
  by (simp add: sha256_new_def fed_def blocks_short tail_bytes_short)

lemma sha256_update_fed: "sha256_update (fed bs) data = fed (bs @ data)"
  by (simp add: sha256_update_def fed_def absorb_eq blocks_append [of bs data]
      tail_bytes_append [of bs data])

lemma sha256_hexdigest_fed: "sha256_hexdigest (fed bs) = hexdigest (sha256 bs)"
  by (simp add: sha256_hexdigest_def fed_def sha256_def blocks_append [of bs "padding (length bs)"])

lemma feed_chunks_fed:
  "feed_chunks (Suc n) NoFault k rest (fed done) = Inr (fed (done @ rest))"
proof (induction rest arbitrary: k "done" rule: length_induct)
  case (1 rest)
  show ?case
  proof (cases "rest = []")
    case True
    then show ?thesis by (simp add: feed_chunks.simps [of "Suc n" NoFault k "[]"])
  next
    case False
    then have ne: "take (Suc n) rest \<noteq> []" by (cases rest) simp_all
    from False have less: "length (drop (Suc n) rest) < length rest" by (cases rest) simp_all
    have "feed_chunks (Suc n) NoFault k rest (fed done)
        = feed_chunks (Suc n) NoFault (k + 1) (drop (Suc n) rest)
            (sha256_update (fed done) (take (Suc n) rest))"
      using ne by (subst feed_chunks.simps) (simp add: Let_def)
    also have "\<dots> = feed_chunks (Suc n) NoFault (k + 1) (drop (Suc n) rest)
            (fed (done @ take (Suc n) rest))"
      by (simp only: sha256_update_fed)
    also have "\<dots> = Inr (fed ((done @ take (Suc n) rest) @ drop (Suc n) rest))"
      using "1.IH" less by blast
    also have "(done @ take (Suc n) rest) @ drop (Suc n) rest = done @ rest"
      by simp
    finally show ?thesis .
  qed
qed

lemma feed_chunks_whole:
  "feed_chunks (Suc n) NoFault 0 content sha256_new = Inr (fed content)"
  using feed_chunks_fed [of n 0 content "[]"] by (simp add: fed_Nil)

lemma sha256_of_file_digest:
  "sha256_of_file content NoFault = Inr (hexdigest (sha256 content))"
proof -
  have "(1024 * 1024 :: nat) = Suc 1048575" by simp
  then show ?thesis
    unfolding sha256_of_file_def
    by (simp only: feed_chunks_whole sha256_hexdigest_fed sum.case io_fault.distinct if_False)
qed

text \<open>
  C5. Reading a file in chunks of 1 MiB through \<open>update\<close> gives the digest of the whole
  byte string in one pass: the hexadecimal SHA-256 of exactly the bytes of the file, which
  is also what one \<open>update\<close> with all the bytes gives; and so does every other chunk
  size that is not zero.
\<close>

theorem sha256_of_file_is_whole_digest:
  "sha256_of_file content NoFault = Inr (hexdigest (sha256 content))
   \<and> sha256_hexdigest (sha256_update sha256_new content) = hexdigest (sha256 content)
   \<and> map_sum id sha256_hexdigest (feed_chunks (Suc n) NoFault 0 content sha256_new)
       = Inr (hexdigest (sha256 content))"
proof (intro conjI)
  show "sha256_of_file content NoFault = Inr (hexdigest (sha256 content))"
    by (rule sha256_of_file_digest)
  show "sha256_hexdigest (sha256_update sha256_new content) = hexdigest (sha256 content)"
    using sha256_update_fed [of "[]" content] by (simp add: fed_Nil sha256_hexdigest_fed)
  show "map_sum id sha256_hexdigest (feed_chunks (Suc n) NoFault 0 content sha256_new)
       = Inr (hexdigest (sha256 content))"
    by (simp add: feed_chunks_whole sha256_hexdigest_fed)
qed

subsection \<open>The digest of \<open>hello\<close>\<close>

definition hello :: "u8 list" where
  "hello = [0x68, 0x65, 0x6c, 0x6c, 0x6f]"

lemma sha256_hello:
  "hexdigest (sha256 hello) = py ''2cf24dba5fb0a30e26e83b2ac5b9e29e1b161e5c1fa7425e73043362938b9824''"
  by code_simp

section \<open>Text files\<close>

text \<open>
  The text of a file is modelled by its characters (the UTF-8 decoding is not modelled).
  \<open>read_text\<close> opens the file with universal newlines: a carriage return, alone or
  before a line feed, is read as one line feed. \<open>write_text\<close> and the append mode write
  the characters as they are (\<open>os.linesep\<close> is the line feed).
\<close>

fun universal_newlines :: "pystr \<Rightarrow> pystr" where
  "universal_newlines [] = []"
| "universal_newlines [c] = (if c = 13 then [10] else [c])"
| "universal_newlines (c # d # ds) =
     (if c = 13 \<and> d = 10 then 10 # universal_newlines ds
      else if c = 13 then 10 # universal_newlines (d # ds)
      else c # universal_newlines (d # ds))"

definition read_text :: "pystr \<Rightarrow> pystr" where
  "read_text disk = universal_newlines disk"

definition startswith :: "pystr \<Rightarrow> pystr \<Rightarrow> bool" where
  "startswith s prefix \<longleftrightarrow> take (length prefix) s = prefix"

text \<open>
  \<open>die\<close> logs the message and raises \<open>SystemExit\<close> with the code, 1. An
  \<open>OSError\<close> that nothing catches ends the command too.
\<close>

datatype failure = SystemExit nat | Uncaught os_error

section \<open>The path list\<close>

text \<open>
  \<open>iter_list_paths\<close>: the lines of the list file, stripped; empty lines and lines that
  start with \<open>#\<close> are skipped, and \<open>~/\<close> at the start is replaced by the home
  directory. \<open>home_join rest\<close> stands for \<open>str(Path.home() / rest)\<close>.
\<close>

definition list_line :: "(pystr \<Rightarrow> pystr) \<Rightarrow> pystr \<Rightarrow> pystr list" where
  "list_line home_join raw =
     (let line = strip raw in
      if line = [] \<or> startswith line (py ''#'') then []
      else if startswith line (py ''~/'') then [home_join (drop 2 line)]
      else [line])"

definition iter_list_paths :: "(pystr \<Rightarrow> pystr) \<Rightarrow> pystr option \<Rightarrow> failure + pystr list" where
  "iter_list_paths home_join listfile =
     (case listfile of
        None \<Rightarrow> Inl (SystemExit 1)
      | Some disk \<Rightarrow> Inr (concat (map (list_line home_join) (splitlines (read_text disk)))))"

text \<open>
  \<open>cmd_add\<close> and \<open>cmd_remove\<close> on a list file that exists or not; the result is the
  new text of the file.
\<close>

definition cmd_add :: "pystr \<Rightarrow> pystr option \<Rightarrow> failure + pystr" where
  "cmd_add path listfile =
     (case listfile of
        None \<Rightarrow> Inl (SystemExit 1)
      | Some disk \<Rightarrow>
          let existing = splitlines (read_text disk) in
          if list_ex (\<lambda>line. strip line = path) existing then Inr disk
          else Inr (disk @ (if existing \<noteq> [] \<and> last existing \<noteq> [] then [10] else [])
                         @ path @ [10]))"

definition cmd_remove :: "pystr \<Rightarrow> pystr option \<Rightarrow> failure + pystr" where
  "cmd_remove path listfile =
     (case listfile of
        None \<Rightarrow> Inl (SystemExit 1)
      | Some disk \<Rightarrow>
          let lines = splitlines (read_text disk);
              new_lines = filter (\<lambda>ln. strip ln \<noteq> path) lines
          in Inr (join [10] new_lines @ [10]))"

section \<open>The hash store\<close>

text \<open>
  The tracked files: what the file system holds at each listed path. \<open>path.is_file()\<close>
  is called before the \<open>try\<close>: when it raises, nothing catches the error. A path is
  hashed when \<open>is_file\<close> holds, and an \<open>OSError\<close> of the hashing is caught.
\<close>

definition is_file :: "(pystr \<Rightarrow> node) \<Rightarrow> pystr \<Rightarrow> os_error + bool" where
  "is_file fs p =
     (case fs p of
        Regular content fault \<Rightarrow> Inr True
      | StatFails \<Rightarrow> Inl OSError
      | _ \<Rightarrow> Inr False)"

definition hash_line :: "(pystr \<Rightarrow> node) \<Rightarrow> pystr \<Rightarrow> os_error + pystr" where
  "hash_line fs p =
     (case is_file fs p of
        Inl e \<Rightarrow> Inl e
      | Inr regular \<Rightarrow>
          if regular then
            (case fs p of
               Regular content fault \<Rightarrow>
                 (case sha256_of_file content fault of
                    Inr digest \<Rightarrow> Inr (digest @ py ''  '' @ p)
                  | Inl OSError \<Rightarrow> Inr (py ''ERROR  '' @ p))
             | _ \<Rightarrow> Inr (py ''MISSING  '' @ p))
          else Inr (py ''MISSING  '' @ p))"

text \<open>
  The loop over the listed paths, with the lines appended so far: an error that
  \<open>hash_line\<close> does not catch ends the loop.
\<close>

fun hash_paths :: "(pystr \<Rightarrow> node) \<Rightarrow> pystr list \<Rightarrow> pystr list \<Rightarrow> os_error + pystr list" where
  "hash_paths fs [] lines = Inr lines"
| "hash_paths fs (p # ps) lines =
     (case hash_line fs p of
        Inl e \<Rightarrow> Inl e
      | Inr l \<Rightarrow> hash_paths fs ps (lines @ [l]))"

text \<open>
  \<open>hash_files_from_list\<close>: the text written to \<open>out_file\<close>, which is written after
  the loop, so that nothing is written when the loop is ended by an error.
\<close>

definition hash_files_from_list ::
  "(pystr \<Rightarrow> pystr) \<Rightarrow> (pystr \<Rightarrow> node) \<Rightarrow> pystr option \<Rightarrow> failure + pystr" where
  "hash_files_from_list home_join fs listfile =
     (case iter_list_paths home_join listfile of
        Inl e \<Rightarrow> Inl e
      | Inr paths \<Rightarrow>
          (case hash_paths fs paths [] of
             Inl e \<Rightarrow> Inl (Uncaught e)
           | Inr lines \<Rightarrow> Inr (join [10] lines @ (if lines \<noteq> [] then [10] else []))))"

text \<open>\<open>parse_hash_file\<close>: the body of the loop for one line, and the whole file.\<close>

definition parse_line :: "pystr \<Rightarrow> pydict \<Rightarrow> pydict" where
  "parse_line raw mapping =
     (let line = rstrip_chars [13, 10] raw in
      if line = [] then mapping
      else
        let parts = split_maxsplit1 line in
        if length parts \<noteq> 2 then mapping
        else dict_set (lstrip_chars [32, 42] (parts ! 1)) (parts ! 0) mapping)"

definition parse_hash_file :: "pystr option \<Rightarrow> failure + pydict" where
  "parse_hash_file hash_file =
     (case hash_file of
        None \<Rightarrow> Inl (SystemExit 1)
      | Some disk \<Rightarrow> Inr (fold parse_line (splitlines (read_text disk)) []))"

section \<open>Lines\<close>

abbreviation no_linebreak :: "pystr \<Rightarrow> bool" where
  "no_linebreak l \<equiv> list_all (\<lambda>c. \<not> is_linebreak c) l"

lemma splitlines_Nil: "splitlines [] = []"
  by (simp add: splitlines.simps)

lemma is_linebreak_10: "is_linebreak 10"
  by (simp add: is_linebreak_def)

lemma takeWhile_no_linebreak:
  "no_linebreak l \<Longrightarrow> is_linebreak c \<Longrightarrow> takeWhile (\<lambda>c. \<not> is_linebreak c) (l @ c # rest) = l"
  by (induction l) simp_all

lemma dropWhile_no_linebreak:
  "no_linebreak l \<Longrightarrow> is_linebreak c \<Longrightarrow> dropWhile (\<lambda>c. \<not> is_linebreak c) (l @ c # rest) = c # rest"
  by (induction l) simp_all

lemma splitlines_line:
  assumes "no_linebreak l"
  shows "splitlines (l @ 10 # rest) = l # splitlines rest"
proof -
  have "l @ 10 # rest \<noteq> []" by simp
  then show ?thesis
    by (subst splitlines.simps)
       (simp add: takeWhile_no_linebreak [OF assms] dropWhile_no_linebreak [OF assms]
          is_linebreak_10)
qed

lemma splitlines_unterminated:
  assumes "no_linebreak l" and "l \<noteq> []"
  shows "splitlines l = [l]"
proof -
  from assms(1) have t: "takeWhile (\<lambda>c. \<not> is_linebreak c) l = l"
    by (simp add: list_all_iff)
  from assms(1) have d: "dropWhile (\<lambda>c. \<not> is_linebreak c) l = []"
    by (simp add: list_all_iff)
  show ?thesis
    using assms(2) by (subst splitlines.simps) (simp add: t d splitlines_Nil)
qed

lemma splitlines_terminated:
  "list_all no_linebreak ls \<Longrightarrow> splitlines (concat (map (\<lambda>l. l @ [10]) ls)) = ls"
  by (induction ls) (simp_all add: splitlines_Nil splitlines_line)

lemma join_terminated:
  "ls \<noteq> [] \<Longrightarrow> join [10] ls @ [10] = concat (map (\<lambda>l. l @ [10]) ls)"
  by (induction "[10] :: pystr" ls rule: join.induct) simp_all

lemma splitlines_no_linebreak: "list_all no_linebreak (splitlines s)"
proof (induction s rule: splitlines.induct)
  case (1 s)
  show ?case
  proof (cases "s = []")
    case True
    then show ?thesis by (simp add: splitlines_Nil)
  next
    case False
    have "no_linebreak (takeWhile (\<lambda>c. \<not> is_linebreak c) s)"
      by (auto simp: list_all_iff dest: set_takeWhileD)
    with False "1.IH" show ?thesis
      by (subst splitlines.simps) simp
  qed
qed

section \<open>The text of a hash store\<close>

text \<open>The token that \<open>hash_files_from_list\<close> records for a path.\<close>

definition outcome_token :: "(pystr \<Rightarrow> node) \<Rightarrow> pystr \<Rightarrow> pystr" where
  "outcome_token fs p =
     (case fs p of
        Regular content fault \<Rightarrow>
          (case sha256_of_file content fault of Inr digest \<Rightarrow> digest | Inl e \<Rightarrow> ERROR)
      | _ \<Rightarrow> MISSING)"

text \<open>The paths on which \<open>is_file\<close> raises.\<close>

definition is_file_raises :: "(pystr \<Rightarrow> node) \<Rightarrow> pystr \<Rightarrow> bool" where
  "is_file_raises fs p \<longleftrightarrow> is_file fs p = Inl OSError"

lemma is_file_raises_iff: "is_file_raises fs p \<longleftrightarrow> fs p = StatFails"
  by (simp add: is_file_raises_def is_file_def split: node.splits)

lemma hash_line_token:
  "hash_line fs p =
     (if is_file_raises fs p then Inl OSError else Inr (outcome_token fs p @ py ''  '' @ p))"
  by (simp add: is_file_raises_iff hash_line_def outcome_token_def is_file_def ERROR_def
      MISSING_def py_def split: node.splits sum.splits os_error.splits)

lemma hash_paths_eq:
  "hash_paths fs ps lines =
     (if list_ex (is_file_raises fs) ps then Inl OSError
      else Inr (lines @ map (\<lambda>p. outcome_token fs p @ py ''  '' @ p) ps))"
  by (induction ps arbitrary: lines) (simp_all add: hash_line_token)

lemma join_lines:
  "join [10] ls @ (if ls \<noteq> [] then [10] else []) = concat (map (\<lambda>l. l @ [10]) ls)"
proof (cases "ls = []")
  case True
  then show ?thesis by simp
next
  case False
  then show ?thesis using join_terminated [OF False] by simp
qed

lemma hash_files_from_list_text:
  "hash_files_from_list home_join fs (Some disk) =
     (let paths = concat (map (list_line home_join) (splitlines (read_text disk)))
      in if list_ex (is_file_raises fs) paths then Inl (Uncaught OSError)
         else Inr (concat (map (\<lambda>p. outcome_token fs p @ py ''  '' @ p @ [10]) paths)))"
proof -
  let ?paths = "concat (map (list_line home_join) (splitlines (read_text disk)))"
  let ?lines = "map (\<lambda>p. outcome_token fs p @ py ''  '' @ p) ?paths"
  have "join [10] ?lines @ (if ?lines \<noteq> [] then [10] else [])
      = concat (map (\<lambda>l. l @ [10]) ?lines)"
    by (rule join_lines)
  also have "\<dots> = concat (map (\<lambda>p. outcome_token fs p @ py ''  '' @ p @ [10]) ?paths)"
    by (simp add: comp_def)
  finally show ?thesis
    by (simp add: hash_files_from_list_def iter_list_paths_def hash_paths_eq Let_def)
qed

subsection \<open>Digests are 64 hexadecimal characters\<close>

lemma length_compress:
  "length (compress hs block) = min (length hs) (Suc (Suc (Suc (Suc (Suc (Suc (Suc (Suc 0))))))))"
  by (simp add: compress_def Let_def split: prod.splits)

lemma length_foldl_compress: "length hs = 8 \<Longrightarrow> length (foldl compress hs bs) = 8"
  by (induction bs arbitrary: hs) (simp_all add: length_compress)

lemma length_sha256: "length (sha256 msg) = 8"
  by (simp add: sha256_def length_foldl_compress H256_init_def)

lemma nibble_less_16: "unat ((w :: u32) AND 15) < 16"
proof -
  have "unat (w AND 15) \<le> unat (15 :: u32)"
    by (rule word_and_le1 [THEN word_le_nat_alt [THEN iffD1]])
  then show ?thesis by simp
qed

lemma is_hexdigit_hexchar: "d < 16 \<Longrightarrow> is_hexdigit (hexchar d)"
  by (auto simp: is_hexdigit_def hexchar_def)

lemma hex32_digits: "length (hex32 w) = 8 \<and> list_all is_hexdigit (hex32 w)"
  by (simp add: hex32_def is_hexdigit_hexchar nibble_less_16)

lemma hexdigest_digits:
  "length (hexdigest hs) = 8 * length hs \<and> list_all is_hexdigit (hexdigest hs)"
  by (induction hs) (simp_all add: hexdigest_def hex32_digits)

lemma is_digest_sha256: "is_digest (hexdigest (sha256 msg))"
  by (simp add: is_digest_def hexdigest_digits length_sha256)

lemma feed_chunks_any_fault:
  "feed_chunks (Suc n) fault k rest (fed done) = Inl OSError
   \<or> feed_chunks (Suc n) fault k rest (fed done) = Inr (fed (done @ rest))"
proof (induction rest arbitrary: k "done" rule: length_induct)
  case (1 rest)
  show ?case
  proof (cases "fault = ReadFails k")
    case True
    then show ?thesis by (subst feed_chunks.simps) simp
  next
    case nofail: False
    show ?thesis
    proof (cases "rest = []")
      case True
      with nofail show ?thesis by (simp add: feed_chunks.simps [of "Suc n" fault k "[]"])
    next
      case False
      then have ne: "take (Suc n) rest \<noteq> []" by (cases rest) simp_all
      from False have less: "length (drop (Suc n) rest) < length rest" by (cases rest) simp_all
      have step: "feed_chunks (Suc n) fault k rest (fed done)
          = feed_chunks (Suc n) fault (k + 1) (drop (Suc n) rest)
              (fed (done @ take (Suc n) rest))"
        using ne nofail
        by (subst feed_chunks.simps) (simp add: Let_def sha256_update_fed)
      from "1.IH" less
      have "feed_chunks (Suc n) fault (k + 1) (drop (Suc n) rest) (fed (done @ take (Suc n) rest))
              = Inl OSError
         \<or> feed_chunks (Suc n) fault (k + 1) (drop (Suc n) rest) (fed (done @ take (Suc n) rest))
              = Inr (fed ((done @ take (Suc n) rest) @ drop (Suc n) rest))"
        by blast
      then show ?thesis unfolding step by simp
    qed
  qed
qed

lemma sha256_of_file_cases:
  "sha256_of_file content fault = Inl OSError
   \<or> sha256_of_file content fault = Inr (hexdigest (sha256 content))"
proof -
  have n: "(1024 * 1024 :: nat) = Suc 1048575" by simp
  from feed_chunks_any_fault [of 1048575 fault 0 content "[]"]
  show ?thesis
    unfolding sha256_of_file_def n fed_Nil
    by (auto simp: sha256_hexdigest_fed)
qed

lemma is_digest_not_sentinel: "is_digest d \<Longrightarrow> d \<noteq> MISSING \<and> d \<noteq> ERROR"
  by (auto simp: is_digest_def MISSING_def ERROR_def py_def)

lemma is_outcome_token: "is_outcome (outcome_token fs p)"
proof (cases "fs p")
  case (Regular content fault)
  with sha256_of_file_cases [of content fault] show ?thesis
    by (auto simp: outcome_token_def is_outcome_def is_digest_sha256)
qed (simp_all add: outcome_token_def is_outcome_def)

subsection \<open>What is written for the listed paths\<close>

definition listed_paths :: "(pystr \<Rightarrow> pystr) \<Rightarrow> pystr \<Rightarrow> pystr list" where
  "listed_paths home_join disk = concat (map (list_line home_join) (splitlines (read_text disk)))"

lemma iter_list_paths_Some: "iter_list_paths home_join (Some disk) = Inr (listed_paths home_join disk)"
  by (simp add: iter_list_paths_def listed_paths_def)

text \<open>A regular file is readable when opening it and reading it to its end raise nothing.\<close>

definition readable :: "node \<Rightarrow> bool" where
  "readable n =
     (case n of Regular content fault \<Rightarrow> sha256_of_file content fault \<noteq> Inl OSError | _ \<Rightarrow> False)"

definition contents :: "node \<Rightarrow> u8 list" where
  "contents n = (case n of Regular content fault \<Rightarrow> content | _ \<Rightarrow> [])"

text \<open>
  C6. The text that \<open>hash_files_from_list\<close> writes has, for every listed path in the order
  of the list, the token, two spaces, the path and a line feed; every token is a digest of
  64 hexadecimal characters or one of the words \<open>MISSING\<close> and \<open>ERROR\<close>; and the text
  ends with a line feed exactly when a path is listed (it is empty otherwise). That text is
  written unless \<open>is_file\<close> raises on a listed path, and then nothing is written.
\<close>

theorem hash_store_text_format:
  "(let paths = listed_paths home_join disk;
        text = concat (map (\<lambda>p. outcome_token fs p @ py ''  '' @ p @ [10]) paths)
    in hash_files_from_list home_join fs (Some disk)
         = (if list_ex (is_file_raises fs) paths then Inl (Uncaught OSError) else Inr text)
       \<and> list_all is_outcome (map (outcome_token fs) paths)
       \<and> (text \<noteq> [] \<and> last text = 10) = (paths \<noteq> [])
       \<and> (text = []) = (paths = []))"
proof -
  let ?paths = "listed_paths home_join disk"
  let ?text = "concat (map (\<lambda>p. outcome_token fs p @ py ''  '' @ p @ [10]) ?paths)"
  have 1: "hash_files_from_list home_join fs (Some disk)
      = (if list_ex (is_file_raises fs) ?paths then Inl (Uncaught OSError) else Inr ?text)"
    by (simp add: hash_files_from_list_text listed_paths_def Let_def)
  have 2: "list_all is_outcome (map (outcome_token fs) ?paths)"
    by (simp add: list_all_iff is_outcome_token)
  have 3: "(?text \<noteq> [] \<and> last ?text = 10) = (?paths \<noteq> [])"
  proof (cases "?paths" rule: rev_cases)
    case Nil
    then show ?thesis by simp
  next
    case (snoc ps p)
    then show ?thesis by simp
  qed
  have 4: "(?text = []) = (?paths = [])"
    by (cases ?paths) simp_all
  from 1 2 3 4 show ?thesis by (simp only: Let_def)
qed

lemma outcome_token_cases:
  assumes "\<not> is_file_raises fs p"
  shows "(outcome_token fs p = MISSING) = (is_file fs p = Inr False)
      \<and> (outcome_token fs p = ERROR) = (is_file fs p = Inr True \<and> \<not> readable (fs p))
      \<and> is_digest (outcome_token fs p) = (is_file fs p = Inr True \<and> readable (fs p))
      \<and> (outcome_token fs p = hexdigest (sha256 (contents (fs p))))
           = (is_file fs p = Inr True \<and> readable (fs p))"
proof -
  have e: "ERROR \<noteq> MISSING" by (rule ERROR_neq_MISSING)
  have d: "is_digest (hexdigest (sha256 c))" for c by (rule is_digest_sha256)
  have nd: "\<not> is_digest MISSING" "\<not> is_digest ERROR"
    using is_digest_not_sentinel by blast+
  have ns: "hexdigest (sha256 c) \<noteq> MISSING" "hexdigest (sha256 c) \<noteq> ERROR"
    "MISSING \<noteq> hexdigest (sha256 c)" "ERROR \<noteq> hexdigest (sha256 c)" for c
    using is_digest_not_sentinel [OF d [of c]] by auto
  show ?thesis
  proof (cases "fs p")
    case Absent
    then show ?thesis
      using e nd ns by (simp add: outcome_token_def is_file_def readable_def contents_def)
  next
    case NotRegular
    then show ?thesis
      using e nd ns by (simp add: outcome_token_def is_file_def readable_def contents_def)
  next
    case StatFails
    with assms show ?thesis by (simp add: is_file_raises_iff)
  next
    case (Regular content fault)
    from sha256_of_file_cases [of content fault] show ?thesis
    proof
      assume "sha256_of_file content fault = Inl OSError"
      with Regular show ?thesis
        using e nd ns by (simp add: outcome_token_def is_file_def readable_def contents_def)
    next
      assume "sha256_of_file content fault = Inr (hexdigest (sha256 content))"
      with Regular show ?thesis
        using d [of content] ns [of content]
        by (simp add: outcome_token_def is_file_def readable_def contents_def)
    qed
  qed
qed

text \<open>
  When \<open>is_file\<close> raises on a listed path, the error ends the command and no text is
  written.
\<close>

lemma is_file_error_ends_scan:
  assumes "p \<in> set (listed_paths home_join disk)" and "is_file_raises fs p"
  shows "hash_files_from_list home_join fs (Some disk) = Inl (Uncaught OSError)"
proof -
  from assms have "list_ex (is_file_raises fs) (listed_paths home_join disk)"
    unfolding list_ex_iff by blast
  then show ?thesis by (simp add: hash_files_from_list_text listed_paths_def Let_def)
qed

text \<open>
  C2, as the code has it. On a path where \<open>is_file\<close> returns, the token is \<open>MISSING\<close>
  exactly when the path is not a regular file, \<open>ERROR\<close> exactly when it is a regular file
  and opening or reading it raises \<open>OSError\<close>, and the digest of its bytes exactly when
  it is a regular file that is read to its end. When \<open>is_file\<close> returns on every listed
  path, the text has one line for every listed path, whatever the outcome of the others.
\<close>

theorem outcome_of_each_listed_path:
  "(\<not> is_file_raises fs p \<longrightarrow>
      hash_line fs p = Inr (outcome_token fs p @ py ''  '' @ p)
      \<and> (outcome_token fs p = MISSING) = (is_file fs p = Inr False)
      \<and> (outcome_token fs p = ERROR) = (is_file fs p = Inr True \<and> \<not> readable (fs p))
      \<and> is_digest (outcome_token fs p) = (is_file fs p = Inr True \<and> readable (fs p))
      \<and> (outcome_token fs p = hexdigest (sha256 (contents (fs p))))
           = (is_file fs p = Inr True \<and> readable (fs p)))
   \<and> (\<not> list_ex (is_file_raises fs) (listed_paths home_join disk) \<longrightarrow>
        hash_files_from_list home_join fs (Some disk)
          = Inr (concat (map (\<lambda>p. outcome_token fs p @ py ''  '' @ p @ [10])
                   (listed_paths home_join disk))))"
proof (intro conjI impI)
  assume "\<not> is_file_raises fs p"
  then show "hash_line fs p = Inr (outcome_token fs p @ py ''  '' @ p)"
    by (simp add: hash_line_token)
next
  assume a: "\<not> is_file_raises fs p"
  note c = outcome_token_cases [OF a]
  from c show "(outcome_token fs p = MISSING) = (is_file fs p = Inr False)" by blast
  from c show "(outcome_token fs p = ERROR) = (is_file fs p = Inr True \<and> \<not> readable (fs p))"
    by blast
  from c show "is_digest (outcome_token fs p) = (is_file fs p = Inr True \<and> readable (fs p))"
    by blast
  from c show "(outcome_token fs p = hexdigest (sha256 (contents (fs p))))
           = (is_file fs p = Inr True \<and> readable (fs p))"
    by blast
next
  assume "\<not> list_ex (is_file_raises fs) (listed_paths home_join disk)"
  then show "hash_files_from_list home_join fs (Some disk)
          = Inr (concat (map (\<lambda>p. outcome_token fs p @ py ''  '' @ p @ [10])
                   (listed_paths home_join disk)))"
    by (simp add: hash_files_from_list_text listed_paths_def Let_def)
qed


lemmas text_eval = splitlines.simps py_def is_linebreak_def isspace_def strip_def read_text_def
  startswith_def list_line_def listed_paths_def Let_def

definition one_unreadable :: "pystr \<Rightarrow> node" where
  "one_unreadable p = (if p = py ''a'' then Regular [] OpenFails else Absent)"

theorem outcome_of_each_listed_path_witness:
  "\<not> is_file_raises one_unreadable (py ''a'')
   \<and> hash_line one_unreadable (py ''a'') = Inr (py ''ERROR  a'')
   \<and> outcome_token one_unreadable (py ''a'') = ERROR
   \<and> \<not> list_ex (is_file_raises one_unreadable)
         (listed_paths id (py ''a'' @ [10] @ py ''b'' @ [10]))
   \<and> hash_files_from_list id one_unreadable (Some (py ''a'' @ [10] @ py ''b'' @ [10]))
       = Inr (py ''ERROR  a'' @ [10] @ py ''MISSING  b'' @ [10])"
  using outcome_of_each_listed_path
    [of one_unreadable "py ''a''" id "py ''a'' @ [10] @ py ''b'' @ [10]"]
  by (simp add: text_eval is_file_raises_iff one_unreadable_def outcome_token_def
      sha256_of_file_def MISSING_def ERROR_def)

text \<open>
  A regular file that cannot be opened is recorded as \<open>ERROR\<close>, not as \<open>MISSING\<close>: the
  path resolves to a regular file, and it is not readable.
\<close>

definition unreadable_fs :: "pystr \<Rightarrow> node" where
  "unreadable_fs p = Regular [] OpenFails"

theorem unreadable_file_is_error_counterexample:
  "is_file unreadable_fs (py ''a'') = Inr True
   \<and> \<not> readable (unreadable_fs (py ''a''))
   \<and> hash_line unreadable_fs (py ''a'') = Inr (py ''ERROR  a'')
   \<and> hash_line unreadable_fs (py ''a'') \<noteq> Inr (py ''MISSING  a'')"
  by (simp add: unreadable_fs_def readable_def hash_line_def is_file_def sha256_of_file_def
      py_def)

section \<open>Reading a store back\<close>

lemma universal_newlines_id: "13 \<notin> set s \<Longrightarrow> universal_newlines s = s"
  by (induction s rule: universal_newlines.induct) simp_all

lemma map_of_dict_set: "map_of (dict_set k v d) = (map_of d)(k \<mapsto> v)"
  by (induction d) (auto simp: fun_eq_iff)

lemma keys_dict_set: "set (map fst (dict_set k v d)) = insert k (set (map fst d))"
proof -
  have "fst ` set (dict_set k v d) = dom (map_of (dict_set k v d))"
    by (simp only: dom_map_of_conv_image_fst)
  also have "\<dots> = insert k (dom (map_of d))" by (simp add: map_of_dict_set)
  also have "dom (map_of d) = fst ` set d" by (simp only: dom_map_of_conv_image_fst)
  finally show ?thesis by simp
qed

lemma distinct_dict_set: "distinct (map fst d) \<Longrightarrow> distinct (map fst (dict_set k v d))"
proof (induction d)
  case Nil
  then show ?case by simp
next
  case (Cons e d)
  obtain k' v' where e: "e = (k', v')" by (cases e)
  show ?case
  proof (cases "k' = k")
    case True
    with Cons.prems e show ?thesis by simp
  next
    case False
    with Cons e keys_dict_set [of k v d] show ?thesis by auto
  qed
qed

lemma map_of_fold_dict_set:
  "map_of (fold (\<lambda>(p, t). dict_set p t) S d) = map_of d ++ map_of (rev S)"
proof (induction S arbitrary: d)
  case Nil
  then show ?case by simp
next
  case (Cons e S)
  obtain p t where e: "e = (p, t)" by (cases e)
  have "map_of (fold (\<lambda>(p, t). dict_set p t) (e # S) d)
      = map_of (dict_set p t d) ++ map_of (rev S)"
    using Cons.IH [of "dict_set p t d"] e by simp
  also have "\<dots> = map_of d ++ map_of (rev (e # S))"
    by (simp add: map_of_dict_set e fun_eq_iff map_add_def split: option.splits)
  finally show ?case .
qed

lemma distinct_fold_dict_set:
  "distinct (map fst d) \<Longrightarrow> distinct (map fst (fold (\<lambda>(p, t). dict_set p t) S d))"
  by (induction S arbitrary: d) (auto simp: distinct_dict_set)

text \<open>
  Writing a store: an ordered sequence of pairs of a path and a token, one line for each
  as \<open>hash_files_from_list\<close> forms it.
\<close>

definition store_text :: "(pystr \<times> pystr) list \<Rightarrow> pystr" where
  "store_text entries =
     join [10] (map (\<lambda>(p, t). t @ py ''  '' @ p) entries) @ (if entries \<noteq> [] then [10] else [])"

text \<open>
  The paths that come back as they were written: not empty, without whitespace, and not
  starting with an asterisk (which \<open>parse_hash_file\<close> strips).
\<close>

definition plain_path :: "pystr \<Rightarrow> bool" where
  "plain_path p \<longleftrightarrow> p \<noteq> [] \<and> \<not> list_ex isspace p \<and> hd p \<noteq> 42"

definition plain_entry :: "pystr \<times> pystr \<Rightarrow> bool" where
  "plain_entry e \<longleftrightarrow> plain_path (fst e) \<and> is_outcome (snd e)"

lemma is_hexdigit_not_space: "is_hexdigit c \<Longrightarrow> \<not> isspace c"
  by (auto simp: is_hexdigit_def isspace_def)

lemma outcome_no_space: "is_outcome t \<Longrightarrow> t \<noteq> [] \<and> \<not> list_ex isspace t"
  unfolding is_outcome_def
proof (elim disjE)
  assume "is_digest t"
  then show ?thesis
    by (auto simp: is_digest_def list_all_iff list_ex_iff dest: is_hexdigit_not_space)
next
  assume "t = MISSING"
  then show ?thesis by (simp add: MISSING_def py_def isspace_def)
next
  assume "t = ERROR"
  then show ?thesis by (simp add: ERROR_def py_def isspace_def)
qed

lemma isspace_32: "isspace 32"
  by (simp add: isspace_def)

lemma is_linebreak_isspace: "is_linebreak c \<Longrightarrow> isspace c"
  by (auto simp: is_linebreak_def isspace_def)

lemma split_token_path:
  assumes "t \<noteq> []" "\<not> list_ex isspace t" "p \<noteq> []" "\<not> list_ex isspace p"
  shows "split_maxsplit1 (t @ [32, 32] @ p) = [t, p]"
proof -
  let ?s = "t @ [32, 32] @ p"
  from assms(1,2) have ht: "\<not> isspace (hd t)" by (cases t) (auto simp: list_ex_iff)
  from assms(3,4) have hp: "\<not> isspace (hd p)" by (cases p) (auto simp: list_ex_iff)
  have 1: "dropWhile isspace ?s = ?s"
    using ht assms(1) by (cases t) simp_all
  have 2: "takeWhile (\<lambda>c. \<not> isspace c) ?s = t"
    using assms(2) by (induction t) (simp_all add: isspace_32)
  have 3: "dropWhile (\<lambda>c. \<not> isspace c) ?s = [32, 32] @ p"
    using assms(2) by (induction t) (simp_all add: isspace_32)
  have 4: "dropWhile isspace ([32, 32] @ p) = p"
    using hp assms(3) by (cases p) (simp_all add: isspace_32)
  show ?thesis
    unfolding split_maxsplit1_def Let_def 1 2 3 4 using assms(1,3) by simp
qed

lemma rstrip_chars_id: "s \<noteq> [] \<Longrightarrow> last s \<notin> set chars \<Longrightarrow> rstrip_chars chars s = s"
  by (cases s rule: rev_cases) (simp_all add: rstrip_chars_def)

lemma lstrip_chars_id: "s \<noteq> [] \<Longrightarrow> hd s \<notin> set chars \<Longrightarrow> lstrip_chars chars s = s"
  by (cases s) (simp_all add: lstrip_chars_def)

lemma py_two_spaces: "py ''  '' = [32, 32]"
  by (simp add: py_def)

lemma parse_line_entry:
  assumes "plain_path p" and "is_outcome t"
  shows "parse_line (t @ py ''  '' @ p) m = dict_set p t m"
proof -
  from assms(1) have p: "p \<noteq> []" "\<not> list_ex isspace p" "hd p \<noteq> 42"
    by (simp_all add: plain_path_def)
  from outcome_no_space [OF assms(2)] have t: "t \<noteq> []" "\<not> list_ex isspace t" by simp_all
  let ?line = "t @ [32, 32] @ p"
  from p(1,2) have "\<not> isspace (last p)" by (auto simp: list_ex_iff)
  then have "last p \<noteq> 13 \<and> last p \<noteq> 10" by (auto simp: isspace_def)
  then have "last ?line \<notin> set [13, 10]" using p(1) by simp
  then have r: "rstrip_chars [13, 10] ?line = ?line" by (intro rstrip_chars_id) simp_all
  from p(1,2) have "\<not> isspace (hd p)" by (cases p) (auto simp: list_ex_iff)
  then have "hd p \<noteq> 32" using isspace_32 by auto
  with p(3) have "hd p \<notin> set [32, 42]" by simp
  then have l: "lstrip_chars [32, 42] p = p" using p(1) by (intro lstrip_chars_id)
  show ?thesis
    unfolding parse_line_def py_two_spaces Let_def r split_token_path [OF t p(1,2)]
    using t(1) l by simp
qed

lemma not_space_chars:
  assumes "\<not> list_ex isspace s" and "c \<in> set s"
  shows "\<not> is_linebreak c \<and> c \<noteq> 13"
proof -
  from assms have n: "\<not> isspace c" by (auto simp: list_ex_iff)
  have "isspace 13" by (simp add: isspace_def)
  with n have "c \<noteq> 13" by auto
  moreover from n have "\<not> is_linebreak c" using is_linebreak_isspace by blast
  ultimately show ?thesis by simp
qed

lemma entry_line_chars:
  assumes "plain_path p" and "is_outcome t"
  shows "no_linebreak (t @ py ''  '' @ p) \<and> 13 \<notin> set (t @ py ''  '' @ p)"
proof -
  from assms(1) have p: "\<not> list_ex isspace p" by (simp add: plain_path_def)
  from outcome_no_space [OF assms(2)] have t: "\<not> list_ex isspace t" by simp
  have s: "\<not> is_linebreak 32 \<and> (32 :: nat) \<noteq> 13" by (simp add: is_linebreak_def)
  have "\<not> is_linebreak c \<and> c \<noteq> 13" if "c \<in> set (t @ [32, 32] @ p)" for c
  proof -
    from that consider "c \<in> set t" | "c = 32" | "c \<in> set p" by auto
    then show ?thesis
    proof cases
      case 1
      then show ?thesis by (rule not_space_chars [OF t])
    next
      case 2
      then show ?thesis using s by simp
    next
      case 3
      then show ?thesis by (rule not_space_chars [OF p])
    qed
  qed
  then show ?thesis unfolding py_two_spaces list_all_iff by blast
qed

lemma store_text_lines:
  "store_text entries = concat (map (\<lambda>l. l @ [10]) (map (\<lambda>(p, t). t @ py ''  '' @ p) entries))"
  unfolding store_text_def
  using join_lines [of "map (\<lambda>(p, t). t @ py ''  '' @ p) entries"] by simp

lemma hash_files_from_list_store_text:
  "hash_files_from_list home_join fs (Some disk)
     = (if list_ex (is_file_raises fs) (listed_paths home_join disk)
        then Inl (Uncaught OSError)
        else Inr (store_text (map (\<lambda>p. (p, outcome_token fs p))
               (listed_paths home_join disk))))"
  by (simp add: hash_files_from_list_text store_text_lines listed_paths_def comp_def Let_def)

lemma fold_parse_line_entries:
  "list_all plain_entry S \<Longrightarrow>
   fold parse_line (map (\<lambda>(p, t). t @ py ''  '' @ p) S) d = fold (\<lambda>(p, t). dict_set p t) S d"
proof (induction S arbitrary: d)
  case Nil
  then show ?case by simp
next
  case (Cons e S)
  obtain p t where e: "e = (p, t)" by (cases e)
  from Cons.prems have pe0: "plain_entry e" and rest: "list_all plain_entry S"
    by simp_all
  from pe0 e have pe: "plain_path p" "is_outcome t"
    by (simp_all add: plain_entry_def)
  show ?case
    using Cons.IH [OF rest] by (simp add: e parse_line_entry [OF pe])
qed

lemma in_terminated_lines:
  "c \<in> set (concat (map (\<lambda>l. l @ [10]) ls)) \<Longrightarrow> c = 10 \<or> (\<exists>l \<in> set ls. c \<in> set l)"
  by (induction ls) auto

lemma read_store_text:
  assumes "list_all plain_entry S"
  shows "splitlines (read_text (store_text S)) = map (\<lambda>(p, t). t @ py ''  '' @ p) S"
proof -
  let ?lines = "map (\<lambda>(p, t). t @ py ''  '' @ p) S"
  have chars: "no_linebreak l \<and> 13 \<notin> set l" if "l \<in> set ?lines" for l
  proof -
    from that obtain p t where "(p, t) \<in> set S" and l: "l = t @ py ''  '' @ p" by auto
    with assms have "plain_path p" "is_outcome t"
      by (auto simp: list_all_iff plain_entry_def)
    then show ?thesis unfolding l by (rule entry_line_chars)
  qed
  then have nl: "list_all no_linebreak ?lines" unfolding list_all_iff [of no_linebreak] by blast
  have "13 \<notin> set (store_text S)"
  proof
    assume "13 \<in> set (store_text S)"
    then have "13 \<in> set (concat (map (\<lambda>l. l @ [10]) ?lines))"
      by (simp only: store_text_lines)
    from in_terminated_lines [OF this] have "\<exists>l \<in> set ?lines. (13 :: nat) \<in> set l"
      by (elim disjE) simp_all
    then obtain l where "l \<in> set ?lines" and "13 \<in> set l" by (rule bexE)
    with chars [of l] show False by blast
  qed
  then have "read_text (store_text S) = store_text S"
    by (simp add: read_text_def universal_newlines_id)
  then show ?thesis
    by (simp only: store_text_lines splitlines_terminated [OF nl])
qed

text \<open>
  C4, as the code has it. For every store whose paths are not empty, have no whitespace
  and do not start with an asterisk, parsing the text written for it gives the mapping from
  each path to its token, the later occurrence winning; the text is the one that
  \<open>hash_files_from_list\<close> writes for the listed paths and their outcomes, unless
  \<open>is_file\<close> raises on a listed path and nothing is written.
\<close>

theorem store_round_trip:
  assumes "list_all plain_entry S"
  shows "(\<exists>d. parse_hash_file (Some (store_text S)) = Inr d
              \<and> (\<forall>p. dict_get d p = map_of (rev S) p) \<and> distinct (dict_keys d))
         \<and> hash_files_from_list home_join fs (Some disk)
             = (if list_ex (is_file_raises fs) (listed_paths home_join disk)
                then Inl (Uncaught OSError)
                else Inr (store_text (map (\<lambda>p. (p, outcome_token fs p))
                       (listed_paths home_join disk))))"
proof -
  let ?d = "fold (\<lambda>(p, t). dict_set p t) S []"
  have "parse_hash_file (Some (store_text S)) = Inr ?d"
    by (simp add: parse_hash_file_def read_store_text [OF assms]
        fold_parse_line_entries [OF assms])
  moreover have "dict_get ?d p = map_of (rev S) p" for p
    by (simp add: dict_get_def map_of_fold_dict_set)
  moreover have "distinct (dict_keys ?d)"
    unfolding dict_keys_def by (rule distinct_fold_dict_set) simp
  ultimately show ?thesis
    using hash_files_from_list_store_text by blast
qed

text \<open>
  A store with a digest, a sentinel and a path that occurs twice: the later line wins.
\<close>

theorem store_round_trip_witness:
  "list_all plain_entry
     [(py ''a.txt'', py ''2cf24dba5fb0a30e26e83b2ac5b9e29e1b161e5c1fa7425e73043362938b9824''),
      (py ''b'', MISSING), (py ''a.txt'', ERROR)]
   \<and> (\<exists>d. parse_hash_file (Some (store_text
        [(py ''a.txt'', py ''2cf24dba5fb0a30e26e83b2ac5b9e29e1b161e5c1fa7425e73043362938b9824''),
         (py ''b'', MISSING), (py ''a.txt'', ERROR)])) = Inr d
        \<and> dict_get d (py ''a.txt'') = Some ERROR \<and> dict_get d (py ''b'') = Some MISSING
        \<and> dict_get d (py ''c'') = None)"
proof -
  let ?S = "[(py ''a.txt'', py ''2cf24dba5fb0a30e26e83b2ac5b9e29e1b161e5c1fa7425e73043362938b9824''),
      (py ''b'', MISSING), (py ''a.txt'', ERROR)]"
  have h: "list_all plain_entry ?S"
    by (simp add: plain_entry_def plain_path_def is_outcome_def is_digest_def is_hexdigit_def
        isspace_def py_def)
  from store_round_trip [OF h] obtain d where
    d: "parse_hash_file (Some (store_text ?S)) = Inr d" "\<And>p. dict_get d p = map_of (rev ?S) p"
    by blast
  have "dict_get d (py ''a.txt'') = Some ERROR" "dict_get d (py ''b'') = Some MISSING"
    "dict_get d (py ''c'') = None"
    unfolding d(2) by (simp_all add: py_def)
  with h d(1) show ?thesis by blast
qed

text \<open>
  A path that starts with an asterisk has no whitespace, and comes back without the
  asterisk.
\<close>

theorem asterisk_path_counterexample:
  "\<not> list_ex isspace (py ''*a'')
   \<and> parse_hash_file (Some (store_text [(py ''*a'', MISSING)])) = Inr [(py ''a'', MISSING)]
   \<and> dict_get [(py ''a'', MISSING)] (py ''*a'') = None
   \<and> map_of (rev [(py ''*a'', MISSING)]) (py ''*a'') = Some MISSING"
  by (simp add: store_text_def parse_hash_file_def parse_line_def read_text_def
      splitlines.simps split_maxsplit1_def rstrip_chars_def lstrip_chars_def dict_get_def
      MISSING_def py_def isspace_def is_linebreak_def Let_def)

section \<open>The commands \<open>init\<close> and \<open>check\<close>\<close>

text \<open>
  The files of the data directory: the baseline, the last scan and the two temporary
  files \<open>.baseline_tmp\<close> and \<open>.scan_tmp\<close>. A command is modelled by the states of the
  directory that can be seen from outside while it runs, in order; the last one is the
  state it leaves. \<open>write_text\<close> opens the file, which truncates it, and then writes: what
  can be seen is the file with every prefix of the text. \<open>replace\<close> is a rename: one
  step.
\<close>

datatype db_file = Baseline | LastScan | BaselineTmp | ScanTmp

type_synonym db = "db_file \<Rightarrow> pystr option"

definition write_text :: "db_file \<Rightarrow> pystr \<Rightarrow> db \<Rightarrow> db list" where
  "write_text f s d = map (\<lambda>k. d(f \<mapsto> take k s)) [0..<Suc (length s)]"

definition replace_file :: "db_file \<Rightarrow> db_file \<Rightarrow> db \<Rightarrow> db list" where
  "replace_file src dst d = [d(dst := d src, src := None)]"

text \<open>
  \<open>cmd_init\<close>: the list is hashed into \<open>.baseline_tmp\<close>, which replaces the baseline;
  then the last scan is written with the text read from the baseline. (The creation of the
  default list, the directories and the log are left out.)
\<close>

definition cmd_init ::
  "(pystr \<Rightarrow> pystr) \<Rightarrow> (pystr \<Rightarrow> node) \<Rightarrow> pystr option \<Rightarrow> db \<Rightarrow> failure + db list" where
  "cmd_init home_join fs listfile d =
     (case listfile of
        None \<Rightarrow> Inl (SystemExit 1)
      | Some disk \<Rightarrow>
          (case hash_files_from_list home_join fs listfile of
             Inl e \<Rightarrow> Inl e
           | Inr text \<Rightarrow>
               let t1 = write_text BaselineTmp text d;
                   t2 = replace_file BaselineTmp Baseline (last t1);
                   t3 = (case last t2 Baseline of
                           None \<Rightarrow> []
                         | Some b \<Rightarrow> write_text LastScan (read_text b) (last t2))
               in Inr (t1 @ t2 @ t3)))"

text \<open>
  \<open>cmd_check\<close>: the list is hashed into \<open>.scan_tmp\<close>, which replaces the last scan;
  then the baseline and the last scan are parsed and compared. The result is the states
  seen, the lines logged and the counter.
\<close>

definition cmd_check ::
  "(pystr \<Rightarrow> pystr) \<Rightarrow> (pystr \<Rightarrow> node) \<Rightarrow> pystr option \<Rightarrow> db
     \<Rightarrow> failure + (db list \<times> check_state)" where
  "cmd_check home_join fs listfile d =
     (case listfile of
        None \<Rightarrow> Inl (SystemExit 1)
      | Some disk \<Rightarrow>
          if d Baseline = None then Inl (SystemExit 1)
          else
            (case hash_files_from_list home_join fs listfile of
               Inl e \<Rightarrow> Inl e
             | Inr text \<Rightarrow>
                 let t1 = write_text ScanTmp text d;
                     t2 = replace_file ScanTmp LastScan (last t1);
                     d' = last t2
                 in case parse_hash_file (d' Baseline) of
                      Inl e \<Rightarrow> Inl e
                    | Inr base \<Rightarrow>
                        (case parse_hash_file (d' LastScan) of
                           Inl e \<Rightarrow> Inl e
                         | Inr scan \<Rightarrow> Inr (t1 @ t2, compare_stores base scan))))"

lemma last_write_text: "last (write_text f s d) = d(f \<mapsto> s)"
  by (simp add: write_text_def last_map)

lemma set_write_text: "set (write_text f s d) = (\<lambda>k. d(f \<mapsto> take k s)) ` {..length s}"
proof -
  have "{0..<Suc (length s)} = {..length s}" by auto
  then show ?thesis by (simp add: write_text_def del: upt_Suc)
qed

lemma write_text_states:
  "d' \<in> set (write_text f s d) \<Longrightarrow> \<exists>k \<le> length s. d' = d(f \<mapsto> take k s)"
  by (auto simp: set_write_text)

lemma write_text_prefix: "k \<le> length s \<Longrightarrow> d(f \<mapsto> take k s) \<in> set (write_text f s d)"
  by (auto simp: set_write_text)

text \<open>
  A file is whole in a state when it is as it was before the command or has all of its
  new text.
\<close>

definition whole :: "db_file \<Rightarrow> db \<Rightarrow> pystr \<Rightarrow> db \<Rightarrow> bool" where
  "whole f before new d \<longleftrightarrow> d f = before f \<or> d f = Some new"

lemma cmd_init_states:
  "cmd_init home_join fs (Some disk) d =
     (if list_ex (is_file_raises fs) (listed_paths home_join disk) then Inl (Uncaught OSError)
      else
        let text = store_text (map (\<lambda>p. (p, outcome_token fs p)) (listed_paths home_join disk));
            d1 = d(BaselineTmp \<mapsto> text);
            d2 = d1(Baseline \<mapsto> text, BaselineTmp := None)
        in Inr (write_text BaselineTmp text d @ [d2] @ write_text LastScan (read_text text) d2))"
  by (simp add: cmd_init_def hash_files_from_list_store_text Let_def last_write_text
      replace_file_def)

text \<open>
  The baseline at \<open>init\<close> and the last scan at \<open>check\<close> are renamed into place: in every
  state that can be seen they are as before or have all of the new text.
\<close>

lemma cmd_init_baseline_whole:
  assumes "cmd_init home_join fs (Some disk) d = Inr states"
  shows "list_all (whole Baseline d
           (store_text (map (\<lambda>p. (p, outcome_token fs p)) (listed_paths home_join disk)))) states"
  using assms unfolding cmd_init_states Let_def list_all_iff whole_def
  by (auto split: if_splits dest!: write_text_states)

lemma cmd_check_last_scan_whole:
  assumes "cmd_check home_join fs (Some disk) d = Inr (states, result)"
  shows "list_all (whole LastScan d
           (store_text (map (\<lambda>p. (p, outcome_token fs p)) (listed_paths home_join disk)))) states"
  using assms unfolding cmd_check_def Let_def list_all_iff whole_def
  by (auto simp: hash_files_from_list_store_text replace_file_def last_write_text
      split: if_splits sum.splits dest!: write_text_states)

subsection \<open>The first \<open>init\<close> on a list of one path\<close>

definition no_files :: "pystr \<Rightarrow> node" where
  "no_files p = Absent"

lemma init_one_path_text:
  "store_text (map (\<lambda>p. (p, outcome_token no_files p)) (listed_paths id (py ''a'' @ [10])))
     = py ''MISSING  a'' @ [10]"
  by (simp add: text_eval store_text_def outcome_token_def no_files_def MISSING_def)

lemma no_files_never_raises: "\<not> list_ex (is_file_raises no_files) ps"
  by (simp add: list_ex_iff is_file_raises_iff no_files_def)

text \<open>
  C3 at \<open>init\<close>. On a list with the one path \<open>a\<close>, which is no file, and an empty data
  directory, \<open>cmd_init\<close> passes through a state in which the last scan holds
  \<open>MISSING\<close>, the first seven characters of its text \<open>MISSING  a\<close>: the last scan is
  written in place, not renamed into place.
\<close>

theorem cmd_init_writes_last_scan_in_place:
  "(case cmd_init id no_files (Some (py ''a'' @ [10])) (\<lambda>f. None) of
      Inl e \<Rightarrow> False
    | Inr states \<Rightarrow>
        list_ex (\<lambda>d. d LastScan = Some (py ''MISSING'')) states
        \<and> \<not> list_all (whole LastScan (\<lambda>f. None) (py ''MISSING  a'' @ [10])) states)"
proof -
  let ?text = "py ''MISSING  a'' @ [10]"
  let ?d2 = "((\<lambda>f. None)(BaselineTmp \<mapsto> ?text))(Baseline \<mapsto> ?text, BaselineTmp := None)"
  let ?states = "write_text BaselineTmp ?text (\<lambda>f. None) @ [?d2]
      @ write_text LastScan (read_text ?text) ?d2"
  have c: "cmd_init id no_files (Some (py ''a'' @ [10])) (\<lambda>f. None) = Inr ?states"
    unfolding cmd_init_states init_one_path_text Let_def
    by (simp add: no_files_never_raises)
  have r: "read_text ?text = ?text" by (simp add: read_text_def py_def)
  have "take 7 ?text = py ''MISSING''" by (simp add: py_def)
  moreover have "(7 :: nat) \<le> length ?text" by (simp add: py_def)
  ultimately have m: "?d2(LastScan \<mapsto> py ''MISSING'') \<in> set (write_text LastScan ?text ?d2)"
    using write_text_prefix [of 7 ?text ?d2 LastScan] by simp
  then have m': "?d2(LastScan \<mapsto> py ''MISSING'') \<in> set ?states" by (simp add: r)
  have 1: "list_ex (\<lambda>d. d LastScan = Some (py ''MISSING'')) ?states"
    unfolding list_ex_iff using m' by (intro bexI [of _ "?d2(LastScan \<mapsto> py ''MISSING'')"]) simp
  have "\<not> whole LastScan (\<lambda>f. None) ?text (?d2(LastScan \<mapsto> py ''MISSING''))"
    by (simp add: whole_def py_def)
  with m' have 2: "\<not> list_all (whole LastScan (\<lambda>f. None) ?text) ?states"
    unfolding list_all_iff by blast
  from 1 2 show ?thesis unfolding c by simp
qed

section \<open>The digest of \<open>hello\<close>\<close>

lemma parse_store_text:
  "list_all plain_entry S \<Longrightarrow>
   parse_hash_file (Some (store_text S)) = Inr (fold (\<lambda>(p, t). dict_set p t) S [])"
  by (simp add: parse_hash_file_def read_store_text fold_parse_line_entries)

lemma last_cmd_init_states:
  "last (write_text BaselineTmp text d @ [d2] @ write_text LastScan s d2) = d2(LastScan \<mapsto> s)"
proof -
  have "write_text LastScan s d2 \<noteq> []" by (simp add: write_text_def)
  then show ?thesis by (simp add: last_write_text)
qed

definition hello_digest :: pystr where
  "hello_digest = py ''2cf24dba5fb0a30e26e83b2ac5b9e29e1b161e5c1fa7425e73043362938b9824''"

text \<open>A file \<open>A.txt\<close> with the bytes \<open>hello\<close>, read without a fault, and nothing else.\<close>

definition hello_fs :: "pystr \<Rightarrow> node" where
  "hello_fs p = (if p = py ''A.txt'' then Regular hello NoFault else Absent)"

lemma hello_fs_never_raises: "\<not> is_file_raises hello_fs p"
  by (simp add: is_file_raises_iff hello_fs_def)

lemma hello_fs_token: "outcome_token hello_fs (py ''A.txt'') = hello_digest"
  by (simp add: outcome_token_def hello_fs_def sha256_of_file_digest sha256_hello
      hello_digest_def)

lemma hello_list: "listed_paths id (py ''A.txt'' @ [10]) = [py ''A.txt'']"
  by (simp add: text_eval)

lemma hello_plain: "list_all plain_entry [(py ''A.txt'', hello_digest)]"
  by (simp add: plain_entry_def plain_path_def is_outcome_def is_digest_def is_hexdigit_def
      isspace_def py_def hello_digest_def)

text \<open>
  C9, as the code has it. The digest of the bytes \<open>hello\<close> is
  \<open>2cf24dba5fb0a30e26e83b2ac5b9e29e1b161e5c1fa7425e73043362938b9824\<close>, of 64 characters;
  \<open>init\<close> on a list with the one path \<open>A.txt\<close> of such a file leaves a baseline with
  the one line of that digest, two spaces and the path, which is read back as that digest
  for \<open>A.txt\<close>.
\<close>

theorem init_records_hello_digest:
  "sha256_of_file hello NoFault = Inr hello_digest
   \<and> length hello_digest = 64
   \<and> (case cmd_init id hello_fs (Some (py ''A.txt'' @ [10])) (\<lambda>f. None) of
        Inl e \<Rightarrow> False
      | Inr states \<Rightarrow>
          last states Baseline = Some (hello_digest @ py ''  A.txt'' @ [10])
          \<and> parse_hash_file (last states Baseline) = Inr [(py ''A.txt'', hello_digest)])"
proof -
  let ?S = "[(py ''A.txt'', hello_digest)]"
  have 1: "sha256_of_file hello NoFault = Inr hello_digest"
    by (simp add: sha256_of_file_digest sha256_hello hello_digest_def)
  have 2: "length hello_digest = 64" by (simp add: hello_digest_def py_def)
  have t: "store_text ?S = hello_digest @ py ''  A.txt'' @ [10]"
    by (simp add: store_text_def py_def)
  have p: "parse_hash_file (Some (store_text ?S)) = Inr ?S"
    using parse_store_text [OF hello_plain] by simp
  let ?text = "store_text ?S"
  let ?d2 = "((\<lambda>f. None)(BaselineTmp \<mapsto> ?text))(Baseline \<mapsto> ?text, BaselineTmp := None)"
  let ?states = "write_text BaselineTmp ?text (\<lambda>f. None) @ [?d2]
      @ write_text LastScan (read_text ?text) ?d2"
  have c: "cmd_init id hello_fs (Some (py ''A.txt'' @ [10])) (\<lambda>f. None) = Inr ?states"
    unfolding cmd_init_states hello_list Let_def
    by (simp add: hello_fs_never_raises hello_fs_token)
  have l: "last ?states Baseline = Some ?text"
    unfolding last_cmd_init_states by simp
  have 3: "(case cmd_init id hello_fs (Some (py ''A.txt'' @ [10])) (\<lambda>f. None) of
        Inl e \<Rightarrow> False
      | Inr states \<Rightarrow>
          last states Baseline = Some (store_text ?S)
          \<and> parse_hash_file (last states Baseline) = Inr ?S)"
    by (simp only: c sum.case l p)
  from 1 2 3 show ?thesis by (simp only: t)
qed

text \<open>
  The digest as the specification gives it has 63 characters, the last one missing; it is
  not what the file is hashed to.
\<close>

theorem hello_digest_counterexample:
  "length (py ''2cf24dba5fb0a30e26e83b2ac5b9e29e1b161e5c1fa7425e73043362938b982'') = 63
   \<and> sha256_of_file hello NoFault
       \<noteq> Inr (py ''2cf24dba5fb0a30e26e83b2ac5b9e29e1b161e5c1fa7425e73043362938b982'')
   \<and> sha256_of_file hello NoFault
       = Inr (py ''2cf24dba5fb0a30e26e83b2ac5b9e29e1b161e5c1fa7425e73043362938b9824'')"
  by (simp add: sha256_of_file_digest sha256_hello py_def)

section \<open>The command \<open>remove\<close>\<close>

text \<open>The number of line feeds that a text ends with.\<close>

definition trailing_newlines :: "pystr \<Rightarrow> nat" where
  "trailing_newlines s = length (takeWhile (\<lambda>c. c = 10) (rev s))"

definition is_comment :: "pystr \<Rightarrow> bool" where
  "is_comment line \<longleftrightarrow> startswith (strip line) (py ''#'')"

lemma is_linebreak_13: "is_linebreak 13"
  by (simp add: is_linebreak_def)

lemma no_linebreak_chars: "no_linebreak l \<Longrightarrow> 13 \<notin> set l \<and> 10 \<notin> set l"
  unfolding list_all_iff using is_linebreak_10 is_linebreak_13 by blast

lemma read_terminated:
  assumes "list_all no_linebreak ls"
  shows "splitlines (read_text (concat (map (\<lambda>l. l @ [10]) ls))) = ls"
proof -
  have "13 \<notin> set (concat (map (\<lambda>l. l @ [10]) ls))"
  proof
    assume "13 \<in> set (concat (map (\<lambda>l. l @ [10]) ls))"
    from in_terminated_lines [OF this] obtain l where "l \<in> set ls" "13 \<in> set l" by auto
    with assms show False using no_linebreak_chars [of l] by (simp add: list_all_iff)
  qed
  then show ?thesis
    by (simp add: read_text_def universal_newlines_id splitlines_terminated [OF assms])
qed

lemma trailing_newlines_snoc:
  "trailing_newlines (s @ [10]) = Suc (trailing_newlines s)"
  by (simp add: trailing_newlines_def)

lemma trailing_newlines_line:
  assumes "no_linebreak k" and "k \<noteq> []"
  shows "trailing_newlines (s @ k) = 0"
proof -
  from assms(2) obtain c cs where r: "rev k = c # cs" by (cases "rev k") auto
  then have "c \<in> set k" by (metis list.set_intros(1) set_rev)
  with assms(1) have "c \<noteq> 10" using no_linebreak_chars [of k] by auto
  with r show ?thesis by (simp add: trailing_newlines_def)
qed

lemma trailing_newlines_terminated:
  assumes "list_all no_linebreak ls"
  shows "(2 \<le> trailing_newlines (concat (map (\<lambda>l. l @ [10]) ls)))
           = (2 \<le> length ls \<and> last ls = [])"
proof (cases ls rule: rev_cases)
  case Nil
  then show ?thesis by (simp add: trailing_newlines_def)
next
  case (snoc ks k)
  let ?C = "concat (map (\<lambda>l. l @ [10]) ks)"
  have t: "concat (map (\<lambda>l. l @ [10]) ls) = (?C @ k) @ [10]" using snoc by simp
  show ?thesis
  proof (cases "k = []")
    case False
    from assms snoc have "no_linebreak k" by simp
    from trailing_newlines_line [OF this False, of ?C] False snoc show ?thesis
      unfolding t trailing_newlines_snoc by simp
  next
    case True
    show ?thesis
    proof (cases ks rule: rev_cases)
      case Nil
      with True snoc show ?thesis
        unfolding t trailing_newlines_snoc by (simp add: trailing_newlines_def)
    next
      case (snoc js j)
      then have "?C @ k = (concat (map (\<lambda>l. l @ [10]) js) @ j) @ [10]" using True by simp
      then have "trailing_newlines (?C @ k) = Suc (trailing_newlines (concat (map (\<lambda>l. l @ [10]) js) @ j))"
        by (simp only: trailing_newlines_snoc)
      with True snoc \<open>ls = ks @ [k]\<close> show ?thesis
        unfolding t trailing_newlines_snoc by simp
    qed
  qed
qed

lemma trailing_newlines_terminated_pos:
  "ls \<noteq> [] \<Longrightarrow> 1 \<le> trailing_newlines (concat (map (\<lambda>l. l @ [10]) ls))"
  by (cases ls rule: rev_cases) (simp_all add: trailing_newlines_def)

text \<open>
  C8, as the code has it. The new text of the list is the retained lines, those whose
  trimmed content is not the path, in their order and each followed by one line feed; with
  no line retained it is one line feed, which reads as one empty line. The lines of the new
  text are the retained lines; the blank lines are among them unless the path is empty, and
  so are the comment lines that are not the path. The text ends with a line feed, and
  with two or more exactly when two or more lines are retained and the last one is empty.
\<close>

theorem cmd_remove_retained_lines:
  "(let lines = splitlines (read_text disk);
        kept = filter (\<lambda>ln. strip ln \<noteq> path) lines;
        new = (if kept = [] then [10] else concat (map (\<lambda>l. l @ [10]) kept))
    in cmd_remove path (Some disk) = Inr new
       \<and> splitlines (read_text new) = (if kept = [] then [[]] else kept)
       \<and> filter (\<lambda>l. strip l = []) kept
           = (if path = [] then [] else filter (\<lambda>l. strip l = []) lines)
       \<and> filter is_comment kept = filter (\<lambda>l. is_comment l \<and> strip l \<noteq> path) lines
       \<and> 1 \<le> trailing_newlines new
       \<and> (2 \<le> trailing_newlines new) = (2 \<le> length kept \<and> last kept = []))"
proof -
  let ?lines = "splitlines (read_text disk)"
  let ?kept = "filter (\<lambda>ln. strip ln \<noteq> path) ?lines"
  let ?new = "if ?kept = [] then [10] else concat (map (\<lambda>l. l @ [10]) ?kept)"
  have nl: "list_all no_linebreak ?kept"
    using splitlines_no_linebreak [of "read_text disk"] by (auto simp: list_all_iff)
  have 1: "cmd_remove path (Some disk) = Inr ?new"
    by (simp add: cmd_remove_def Let_def join_terminated)
  have 2: "splitlines (read_text ?new) = (if ?kept = [] then [[]] else ?kept)"
  proof (cases "?kept = []")
    case True
    have "splitlines [10] = [[]]"
      using splitlines_line [of "[]" "[]"] by (simp add: splitlines_Nil)
    with True show ?thesis by (simp add: read_text_def)
  next
    case False
    with read_terminated [OF nl] show ?thesis by simp
  qed
  have 3: "filter (\<lambda>l. strip l = []) ?kept
           = (if path = [] then [] else filter (\<lambda>l. strip l = []) ?lines)"
  proof (cases "path = []")
    case True
    then show ?thesis by simp
  next
    case False
    have "filter (\<lambda>l. strip l = []) ?kept = filter (\<lambda>l. strip l = []) ?lines"
      unfolding filter_filter by (rule filter_cong) (use False in auto)
    with False show ?thesis by simp
  qed
  have 4: "filter is_comment ?kept = filter (\<lambda>l. is_comment l \<and> strip l \<noteq> path) ?lines"
    unfolding filter_filter by (rule filter_cong) auto
  have 5: "1 \<le> trailing_newlines ?new"
  proof (cases "?kept = []")
    case True
    then show ?thesis by (simp add: trailing_newlines_def)
  next
    case False
    with trailing_newlines_terminated_pos [OF False] show ?thesis by simp
  qed
  have 6: "(2 \<le> trailing_newlines ?new) = (2 \<le> length ?kept \<and> last ?kept = [])"
  proof (cases "?kept = []")
    case True
    then show ?thesis by (simp add: trailing_newlines_def)
  next
    case False
    with trailing_newlines_terminated [OF nl] show ?thesis by simp
  qed
  from 1 2 3 4 5 6 show ?thesis by (simp only: Let_def) 
qed

text \<open>
  Removing \<open>b\<close> from the list \<open>a\<close>, an empty line, \<open>b\<close> leaves a text that ends with two
  line feeds; removing the only line of a list leaves one line feed, an empty line that
  the list did not have.
\<close>

theorem remove_trailing_newlines_counterexample:
  "cmd_remove (py ''b'') (Some (py ''a'' @ [10, 10] @ py ''b'' @ [10])) = Inr (py ''a'' @ [10, 10])
   \<and> trailing_newlines (py ''a'' @ [10, 10]) = 2
   \<and> cmd_remove (py ''a'') (Some (py ''a'' @ [10])) = Inr [10]
   \<and> splitlines (read_text (py ''a'' @ [10])) = [py ''a'']
   \<and> splitlines (read_text [10]) = [[]]"
  by (simp add: cmd_remove_def trailing_newlines_def text_eval)

section \<open>The command \<open>add\<close>\<close>

subsection \<open>Reading a text that has been appended to\<close>

lemma universal_newlines_no_cr: "13 \<notin> set (universal_newlines s)"
  by (induction s rule: universal_newlines.induct) simp_all

lemma universal_newlines_Nil_iff: "universal_newlines s = [] \<longleftrightarrow> s = []"
  by (cases s rule: universal_newlines.cases) simp_all

lemma universal_newlines_append:
  "c \<noteq> 10 \<Longrightarrow>
   universal_newlines (a @ c # b) = universal_newlines a @ universal_newlines (c # b)"
  by (induction a rule: universal_newlines.induct) simp_all

lemma universal_newlines_snoc_lf:
  "universal_newlines (a @ [10])
     = (if a \<noteq> [] \<and> last a = 13 then universal_newlines a else universal_newlines a @ [10])"
  by (induction a rule: universal_newlines.induct) simp_all

lemma last_universal_newlines:
  "s \<noteq> [] \<Longrightarrow> last (universal_newlines s) = (if last s = 13 then 10 else last s)"
  by (induction s rule: universal_newlines.induct) (simp_all add: universal_newlines_Nil_iff)

lemma splitlines_break:
  assumes "no_linebreak l" and "is_linebreak b" and "b \<noteq> 13"
  shows "splitlines (l @ b # rest) = l # splitlines rest"
proof -
  have "l @ b # rest \<noteq> []" by simp
  then show ?thesis
    using assms(3)
    by (subst splitlines.simps)
       (simp add: takeWhile_no_linebreak [OF assms(1,2)] dropWhile_no_linebreak [OF assms(1,2)])
qed

lemma first_break:
  assumes "\<exists>x \<in> set t. is_linebreak x" and "13 \<notin> set t"
  shows "\<exists>l b r. t = l @ b # r \<and> no_linebreak l \<and> is_linebreak b \<and> b \<noteq> 13 \<and> 13 \<notin> set r"
proof -
  from split_list_first_prop [OF assms(1)] obtain l b r where
    d: "t = l @ b # r" "is_linebreak b" "\<forall>y \<in> set l. \<not> is_linebreak y"
    by blast
  from d(3) have "no_linebreak l" by (simp add: list_all_iff)
  moreover from assms(2) d(1) have "b \<noteq> 13" "13 \<notin> set r" by auto
  ultimately show ?thesis using d(1,2) by blast
qed

lemma splitlines_append_terminated:
  "13 \<notin> set t \<Longrightarrow> t \<noteq> [] \<Longrightarrow> is_linebreak (last t) \<Longrightarrow>
   splitlines (t @ u) = splitlines t @ splitlines u"
proof (induction "length t" arbitrary: t rule: less_induct)
  case less
  from less.prems(2,3) have "\<exists>x \<in> set t. is_linebreak x" using last_in_set by blast
  from first_break [OF this less.prems(1)] obtain l b r where
    d: "t = l @ b # r" and nl: "no_linebreak l" and b: "is_linebreak b" "b \<noteq> 13"
    and r: "13 \<notin> set r"
    by blast
  have 1: "splitlines (t @ u) = l # splitlines (r @ u)"
    using splitlines_break [OF nl b, of "r @ u"] by (simp add: d)
  have 2: "splitlines t = l # splitlines r"
    using splitlines_break [OF nl b, of r] by (simp add: d)
  show ?case
  proof (cases "r = []")
    case True
    with 1 2 show ?thesis by (simp add: splitlines_Nil)
  next
    case False
    with less.prems(3) have "is_linebreak (last r)" by (simp add: d)
    moreover have "length r < length t" by (simp add: d)
    ultimately have "splitlines (r @ u) = splitlines r @ splitlines u"
      using less.hyps [of r] r False by blast
    with 1 2 show ?thesis by simp
  qed
qed

lemma splitlines_append_unterminated:
  "13 \<notin> set t \<Longrightarrow> t \<noteq> [] \<Longrightarrow> \<not> is_linebreak (last t) \<Longrightarrow>
   splitlines (t @ 10 # u) = splitlines t @ splitlines u
   \<and> splitlines t \<noteq> [] \<and> last (splitlines t) \<noteq> []"
proof (induction "length t" arbitrary: t rule: less_induct)
  case less
  show ?case
  proof (cases "\<exists>x \<in> set t. is_linebreak x")
    case False
    then have nl: "no_linebreak t" by (simp add: list_all_iff)
    from splitlines_line [OF nl, of u] splitlines_unterminated [OF nl less.prems(2)]
    show ?thesis using less.prems(2) by simp
  next
    case True
    from first_break [OF this less.prems(1)] obtain l b r where
      d: "t = l @ b # r" and nl: "no_linebreak l" and b: "is_linebreak b" "b \<noteq> 13"
      and r: "13 \<notin> set r"
      by blast
    have 1: "splitlines (t @ 10 # u) = l # splitlines (r @ 10 # u)"
      using splitlines_break [OF nl b, of "r @ 10 # u"] by (simp add: d)
    have 2: "splitlines t = l # splitlines r"
      using splitlines_break [OF nl b, of r] by (simp add: d)
    have ne: "r \<noteq> []"
    proof
      assume "r = []"
      with less.prems(3) b(1) show False by (simp add: d)
    qed
    with less.prems(3) have "\<not> is_linebreak (last r)" by (simp add: d)
    moreover have "length r < length t" by (simp add: d)
    ultimately have "splitlines (r @ 10 # u) = splitlines r @ splitlines u
        \<and> splitlines r \<noteq> [] \<and> last (splitlines r) \<noteq> []"
      using less.hyps [of r] r ne by blast
    with 1 2 show ?thesis by simp
  qed
qed

subsection \<open>The lines after an append\<close>

text \<open>
  The paths for which \<open>add\<close> is stated: not empty, without whitespace at either end and
  without a line boundary.
\<close>

definition entry_path :: "pystr \<Rightarrow> bool" where
  "entry_path path \<longleftrightarrow> path \<noteq> [] \<and> strip path = path \<and> no_linebreak path"

lemma read_entry:
  assumes "path \<noteq> []" and "no_linebreak path"
  shows "read_text (disk @ path @ [10]) = read_text disk @ path @ [10]"
    and "read_text (disk @ [10] @ path @ [10])
           = (if disk \<noteq> [] \<and> last disk = 13 then read_text disk else read_text disk @ [10])
             @ path @ [10]"
proof -
  from assms(1) obtain c cs where p: "path = c # cs" by (cases path) auto
  from assms(2) have c: "c \<noteq> 10" and cr: "13 \<notin> set (c # cs @ [10])"
    using no_linebreak_chars [of path] by (auto simp: p)
  have e: "universal_newlines (c # cs @ [10]) = c # cs @ [10]"
    by (rule universal_newlines_id [OF cr])
  show "read_text (disk @ path @ [10]) = read_text disk @ path @ [10]"
    using universal_newlines_append [OF c, of disk "cs @ [10]"] e by (simp add: read_text_def p)
  have "universal_newlines ((disk @ [10]) @ c # cs @ [10])
      = universal_newlines (disk @ [10]) @ c # cs @ [10]"
    using universal_newlines_append [OF c, of "disk @ [10]" "cs @ [10]"] e by simp
  then show "read_text (disk @ [10] @ path @ [10])
           = (if disk \<noteq> [] \<and> last disk = 13 then read_text disk else read_text disk @ [10])
             @ path @ [10]"
    by (simp add: read_text_def p universal_newlines_snoc_lf)
qed

lemma splitlines_entry:
  assumes "no_linebreak path"
  shows "splitlines (path @ [10]) = [path]" and "splitlines (10 # path @ [10]) = [[], path]"
proof -
  show 1: "splitlines (path @ [10]) = [path]"
    using splitlines_line [OF assms, of "[]"] by (simp add: splitlines_Nil)
  show "splitlines (10 # path @ [10]) = [[], path]"
    using splitlines_line [of "[]" "path @ [10]"] 1 by simp
qed

lemma lines_after_entry:
  assumes "path \<noteq> []" and "no_linebreak path"
  shows "splitlines (read_text disk) = [] \<or> last (splitlines (read_text disk)) = [] \<Longrightarrow>
         splitlines (read_text (disk @ path @ [10])) = splitlines (read_text disk) @ [path]"
    and "read_text disk \<noteq> [] \<Longrightarrow> \<not> is_linebreak (last (read_text disk)) \<Longrightarrow>
         splitlines (read_text disk) \<noteq> [] \<and> last (splitlines (read_text disk)) \<noteq> []
         \<and> splitlines (read_text (disk @ [10] @ path @ [10]))
             = splitlines (read_text disk) @ [path]"
    and "read_text disk \<noteq> [] \<Longrightarrow> is_linebreak (last (read_text disk)) \<Longrightarrow>
         splitlines (read_text (disk @ path @ [10])) = splitlines (read_text disk) @ [path]
         \<and> (splitlines (read_text (disk @ [10] @ path @ [10]))
               = splitlines (read_text disk) @ [path]
             \<or> splitlines (read_text (disk @ [10] @ path @ [10]))
               = splitlines (read_text disk) @ [[], path])"
proof -
  let ?t = "read_text disk"
  have cr: "13 \<notin> set ?t" by (simp add: read_text_def universal_newlines_no_cr)
  note rd1 = read_entry(1) [OF assms, of disk]
  have rd2: "read_text (disk @ 10 # path @ [10])
      = (if disk \<noteq> [] \<and> last disk = 13 then ?t else ?t @ [10]) @ path @ [10]"
    using read_entry(2) [OF assms, of disk] by simp
  note sp = splitlines_entry [OF assms(2)]
  show c: "splitlines (read_text (disk @ path @ [10])) = splitlines ?t @ [path]
         \<and> (splitlines (read_text (disk @ [10] @ path @ [10])) = splitlines ?t @ [path]
             \<or> splitlines (read_text (disk @ [10] @ path @ [10])) = splitlines ?t @ [[], path])"
    if t: "?t \<noteq> []" "is_linebreak (last ?t)"
  proof -
    have 1: "splitlines (?t @ path @ [10]) = splitlines ?t @ [path]"
      using splitlines_append_terminated [OF cr t, of "path @ [10]"] sp(1) by simp
    have 2: "splitlines (?t @ 10 # path @ [10]) = splitlines ?t @ [[], path]"
      using splitlines_append_terminated [OF cr t, of "10 # path @ [10]"] sp(2) by simp
    from 1 2 show ?thesis by (simp add: rd1 rd2)
  qed
  show b: "splitlines ?t \<noteq> [] \<and> last (splitlines ?t) \<noteq> []
         \<and> splitlines (read_text (disk @ [10] @ path @ [10])) = splitlines ?t @ [path]"
    if t: "?t \<noteq> []" "\<not> is_linebreak (last ?t)"
  proof -
    from t(1) have d: "disk \<noteq> []" by (auto simp: read_text_def)
    have "last disk \<noteq> 13"
    proof
      assume "last disk = 13"
      with last_universal_newlines [OF d] have "last ?t = 10" by (simp add: read_text_def)
      with t(2) show False by (simp add: is_linebreak_10)
    qed
    then have "read_text (disk @ [10] @ path @ [10]) = ?t @ 10 # path @ [10]"
      by (simp add: rd2)
    with splitlines_append_unterminated [OF cr t, of "path @ [10]"] sp(1) show ?thesis
      by simp
  qed
  show "splitlines (read_text (disk @ path @ [10])) = splitlines ?t @ [path]"
    if e: "splitlines ?t = [] \<or> last (splitlines ?t) = []"
  proof (cases "?t = []")
    case True
    then show ?thesis by (simp add: rd1 sp(1) splitlines_Nil)
  next
    case False
    have "is_linebreak (last ?t)"
    proof (rule ccontr)
      assume "\<not> is_linebreak (last ?t)"
      from b [OF False this] e show False by blast
    qed
    from c [OF False this] show ?thesis by blast
  qed
qed


lemma filter_absent: "\<not> list_ex P xs \<Longrightarrow> filter P xs = []"
  by (induction xs) simp_all

text \<open>
  C7, as the code has it. For a path that is not empty, has no whitespace at either end
  and no line boundary: \<open>add\<close> leaves the list as it is when a trimmed line equals the
  path. Otherwise it appends the path and a line feed, after at most one line feed of its
  own: none when the list is empty or its last line is empty, and one when the text does
  not end with a line boundary, the path then being the line after the earlier ones. The
  lines are then the earlier lines, at most one empty line and the path; the text ends
  with exactly one line feed; exactly one trimmed line equals the path. In both cases
  \<open>add\<close> of the same path on the new list changes nothing.
\<close>

theorem cmd_add_appends_once:
  assumes "entry_path path"
  shows "\<exists>new. cmd_add path (Some disk) = Inr new
           \<and> cmd_add path (Some new) = Inr new
           \<and> (let existing = splitlines (read_text disk);
                   new_lines = splitlines (read_text new)
               in if list_ex (\<lambda>line. strip line = path) existing then new = disk
                  else (new = disk @ path @ [10] \<or> new = disk @ [10] @ path @ [10])
                     \<and> (existing = [] \<or> last existing = [] \<longrightarrow> new = disk @ path @ [10])
                     \<and> (read_text disk \<noteq> [] \<and> \<not> is_linebreak (last (read_text disk))
                          \<longrightarrow> new = disk @ [10] @ path @ [10]
                              \<and> new_lines = existing @ [path])
                     \<and> (new_lines = existing @ [path] \<or> new_lines = existing @ [[], path])
                     \<and> trailing_newlines new = 1
                     \<and> length (filter (\<lambda>line. strip line = path) new_lines) = 1)"
proof -
  let ?t = "read_text disk"
  let ?existing = "splitlines ?t"
  let ?P = "\<lambda>line. strip line = path"
  from assms have ne: "path \<noteq> []" and st: "strip path = path" and nl: "no_linebreak path"
    by (simp_all add: entry_path_def)
  note la = lines_after_entry [OF ne nl, of disk]
  show ?thesis
  proof (cases "list_ex ?P ?existing")
    case True
    then have "cmd_add path (Some disk) = Inr disk" by (simp add: cmd_add_def Let_def)
    with True show ?thesis by (simp add: Let_def)
  next
    case False
    let ?sep = "if ?existing \<noteq> [] \<and> last ?existing \<noteq> [] then [10] else []"
    let ?new = "disk @ ?sep @ path @ [10]"
    let ?lines = "splitlines (read_text ?new)"
    have a: "cmd_add path (Some disk) = Inr ?new"
      using False by (simp add: cmd_add_def Let_def)
    have 1: "?new = disk @ path @ [10] \<or> ?new = disk @ [10] @ path @ [10]" by simp
    have 2: "?existing = [] \<or> last ?existing = [] \<longrightarrow> ?new = disk @ path @ [10]" by auto
    have 3: "?t \<noteq> [] \<and> \<not> is_linebreak (last ?t)
        \<longrightarrow> ?new = disk @ [10] @ path @ [10] \<and> ?lines = ?existing @ [path]"
    proof
      assume "?t \<noteq> [] \<and> \<not> is_linebreak (last ?t)"
      then have "?existing \<noteq> [] \<and> last ?existing \<noteq> []
          \<and> splitlines (read_text (disk @ [10] @ path @ [10])) = ?existing @ [path]"
        using la(2) by blast
      then show "?new = disk @ [10] @ path @ [10] \<and> ?lines = ?existing @ [path]" by simp
    qed
    have 4: "?lines = ?existing @ [path] \<or> ?lines = ?existing @ [[], path]"
    proof (cases "?existing = [] \<or> last ?existing = []")
      case True
      then have "?new = disk @ path @ [10]" by auto
      with la(1) [OF True] show ?thesis by simp
    next
      case e: False
      then have n: "?new = disk @ [10] @ path @ [10]" by simp
      from e have t: "?t \<noteq> []" using splitlines_Nil by auto
      show ?thesis
      proof (cases "is_linebreak (last ?t)")
        case True
        from la(3) [OF t True] show ?thesis unfolding n by blast
      next
        case False
        from la(2) [OF t False] show ?thesis unfolding n by blast
      qed
    qed
    have 5: "trailing_newlines ?new = 1"
    proof -
      have "trailing_newlines (((disk @ ?sep) @ path) @ [10])
          = Suc (trailing_newlines ((disk @ ?sep) @ path))"
        by (rule trailing_newlines_snoc)
      also have "\<dots> = Suc 0" by (simp only: trailing_newlines_line [OF nl ne])
      finally show ?thesis by simp
    qed
    have f: "filter ?P ?existing = []" by (rule filter_absent [OF False])
    have s0: "strip [] \<noteq> path" using ne by (simp add: strip_def)
    from 4 have 6: "length (filter ?P ?lines) = 1"
    proof
      assume "?lines = ?existing @ [path]"
      then show ?thesis by (simp only: filter_append f) (simp add: st)
    next
      assume "?lines = ?existing @ [[], path]"
      then show ?thesis by (simp only: filter_append f) (simp add: st s0)
    qed
    from 4 have "path \<in> set ?lines" by auto
    with st have "list_ex ?P ?lines" unfolding list_ex_iff by blast
    then have b: "cmd_add path (Some ?new) = Inr ?new"
      by (simp add: cmd_add_def Let_def)
    from False 1 2 3 4 5 6 have
      "(let existing = ?existing; new_lines = ?lines
        in if list_ex ?P existing then ?new = disk
           else (?new = disk @ path @ [10] \<or> ?new = disk @ [10] @ path @ [10])
              \<and> (existing = [] \<or> last existing = [] \<longrightarrow> ?new = disk @ path @ [10])
              \<and> (?t \<noteq> [] \<and> \<not> is_linebreak (last ?t)
                   \<longrightarrow> ?new = disk @ [10] @ path @ [10] \<and> new_lines = existing @ [path])
              \<and> (new_lines = existing @ [path] \<or> new_lines = existing @ [[], path])
              \<and> trailing_newlines ?new = 1
              \<and> length (filter ?P new_lines) = 1)"
      by (simp only: Let_def if_False)
    with a b show ?thesis by blast
  qed
qed


text \<open>
  Adding \<open>b\<close> to the list whose text is \<open>a\<close>, without a line feed: the new text is
  \<open>a\<close>, \<open>b\<close>, each with its line feed, and a second \<open>add\<close> leaves it so.
\<close>

theorem cmd_add_appends_once_witness:
  "entry_path (py ''b'')
   \<and> cmd_add (py ''b'') (Some (py ''a'')) = Inr (py ''a'' @ [10] @ py ''b'' @ [10])
   \<and> cmd_add (py ''b'') (Some (py ''a'' @ [10] @ py ''b'' @ [10]))
       = Inr (py ''a'' @ [10] @ py ''b'' @ [10])
   \<and> splitlines (read_text (py ''a'' @ [10] @ py ''b'' @ [10])) = [py ''a'', py ''b'']"
proof -
  have e: "entry_path (py ''b'')" by (simp add: entry_path_def text_eval)
  have t: "read_text (py ''a'') \<noteq> [] \<and> \<not> is_linebreak (last (read_text (py ''a'')))"
    by (simp add: text_eval)
  have np: "\<not> list_ex (\<lambda>line. strip line = py ''b'') (splitlines (read_text (py ''a'')))"
    by (simp add: text_eval)
  have ex: "splitlines (read_text (py ''a'')) = [py ''a'']" by (simp add: text_eval)
  from cmd_add_appends_once [OF e, of "py ''a''"] obtain new where
    n: "cmd_add (py ''b'') (Some (py ''a'')) = Inr new"
      "cmd_add (py ''b'') (Some new) = Inr new"
    and l: "read_text (py ''a'') \<noteq> [] \<and> \<not> is_linebreak (last (read_text (py ''a'')))
          \<longrightarrow> new = py ''a'' @ [10] @ py ''b'' @ [10]
              \<and> splitlines (read_text new) = splitlines (read_text (py ''a'')) @ [py ''b'']"
    using np unfolding Let_def by (simp only: if_False) blast
  from l t have 1: "new = py ''a'' @ [10] @ py ''b'' @ [10]"
    and 2: "splitlines (read_text new) = splitlines (read_text (py ''a'')) @ [py ''b'']"
    by blast+
  from 2 have 3: "splitlines (read_text new) = [py ''a'', py ''b'']"
    by (simp only: ex append.simps)
  from n e 3 show ?thesis unfolding 1 by blast
qed

text \<open>
  A path with a space before it is no trimmed line: \<open>add\<close> appends it each time, and
  after the second \<open>add\<close> the list has it twice.
\<close>

theorem add_twice_counterexample:
  "cmd_add (py '' b'') (Some []) = Inr (py '' b'' @ [10])
   \<and> cmd_add (py '' b'') (Some (py '' b'' @ [10])) = Inr (py '' b'' @ [10, 10] @ py '' b'' @ [10])
   \<and> length (filter (\<lambda>line. line = py '' b'')
        (splitlines (read_text (py '' b'' @ [10, 10] @ py '' b'' @ [10])))) = 2"
  by (simp add: cmd_add_def text_eval)

end
